theory Spec2Isabelle
  imports Main
begin

section \<open>Values, failures and what a handler call yields\<close>

text \<open>
  A thrown or rejected value is any JavaScript value; the two error classes the
  repository itself constructs are kept apart from values thrown by user code.
\<close>

datatype 'x failure = Error string | TypeError string | Thrown 'x

text \<open>
  What \<^verbatim>\<open>Promise.resolve(handler(context))\<close> amounts to: the call throws synchronously,
  or it yields a promise that fulfils (also when the handler returns a plain value),
  rejects, or never settles.
\<close>

datatype 'x outcome = Throws "'x failure" | Fulfils | Rejects "'x failure" | Hangs

text \<open>Objects live in heaps (lists); a reference is the index of the object.\<close>

type_synonym ref = nat

type_synonym 'v QueueTaskData = "string \<rightharpoonup> 'v"

record IQueueTaskInStorageOptions =
  data :: ref
  key :: string

record IQueueTaskContext =
  ctx_id :: string

section \<open>Number to string\<close>

definition digit :: "nat \<Rightarrow> char" where
  "digit d = ''0123456789'' ! d"

fun decimal :: "nat \<Rightarrow> string" where
  "decimal n = (if n < 10 then [digit n] else decimal (n div 10) @ [digit (n mod 10)])"

declare decimal.simps [simp del]

text \<open>
  \<^verbatim>\<open>String(n)\<close> for an integer-valued number \<open>n\<close>.
\<close>

definition String :: "int \<Rightarrow> string" where
  "String n = (if n < 0 then CHR ''-'' # decimal (nat (- n)) else decimal (nat n))"

definition MIN_SAFE_INTEGER :: int where
  "MIN_SAFE_INTEGER = - (2 ^ 53 - 1)"

text \<open>
  \<^verbatim>\<open>n++\<close> on a number holding an integer between \<open>-2^53\<close> and \<open>2^53\<close>: a double represents
  every integer of that range, and \<open>2^53 + 1\<close> rounds back to \<open>2^53\<close>.
\<close>

definition increment :: "int \<Rightarrow> int" where
  "increment n = (if n < 2 ^ 53 then n + 1 else n)"

section \<open>QueueStorageBase and MemoryQueueStorage\<close>

text \<open>
  A handler is a closure: what it does may differ from call to call. Each call
  receives the state \<open>'w\<close> of the world outside the storage as it is at that moment.
  An execution handler receives the context, that is the mapping held by the context's
  \<^verbatim>\<open>data\<close> object and the \<^verbatim>\<open>taskKey\<close>; it returns the context as it leaves it (it may
  have added, removed or overwritten keys of the mapping, or assigned to the fields of
  the context) and the outcome of the call. A handler is not modelled as calling back
  into the storage while it runs.
  An error handler receives the error of the context and returns normally (\<open>None\<close>) or
  throws.
\<close>

type_synonym ('w, 'v, 'x) QueueExecutionHandler =
  "'w \<Rightarrow> 'v QueueTaskData \<Rightarrow> string \<Rightarrow> ('v QueueTaskData \<times> string) \<times> 'x outcome"

type_synonym ('w, 'x) QueueErrorHandler =
  "'w \<Rightarrow> 'x failure \<Rightarrow> 'x failure option"

text \<open>
  The \<^verbatim>\<open>handler\<close> argument of \<^verbatim>\<open>on\<close>. A function can be subscribed to either event, so
  it is given by what it does as an error handler and as an execution handler.
\<close>

datatype ('w, 'v, 'x) Func =
  Callable "('w, 'x) QueueErrorHandler" "('w, 'v, 'x) QueueExecutionHandler"
| NotCallable

datatype TaskInQueueStatus = Queued | Running | Succeded | Failed | Stopped

record ITaskInQueue =
  id' :: string
  options :: IQueueTaskInStorageOptions
  status :: TaskInQueueStatus

text \<open>
  The callback given to \<^verbatim>\<open>setImmediate\<close> in \<^verbatim>\<open>executeTask\<close>, with the variables it
  closes over.
\<close>

record ('w, 'v, 'x) immediate =
  cl_taskInQueue :: ref
  cl_executionHandlers :: "('w, 'v, 'x) QueueExecutionHandler list"
  cl_data :: ref
  cl_key :: string

text \<open>An attempt whose \<^verbatim>\<open>Promise.all\<close> has not settled yet.\<close>

record 'x attempt =
  at_taskInQueue :: ref
  at_promises :: "'x outcome list"

text \<open>
  The trace records every call of an observer: the record the attempt belongs to,
  the position of the observer in its list, and what it was called with.
\<close>

datatype ('v, 'x) event =
  ExecuteEvent ref nat ref "'v QueueTaskData" string
| ErrorEvent ref nat "'x failure"
| ConsoleError "'x failure"

record ('w, 'v, 'x) MemoryQueueStorage =
  errorHandlers :: "('w, 'x) QueueErrorHandler list"
  executionHandlers :: "('w, 'v, 'x) QueueExecutionHandler list"
  nextId :: int
  tasksInQueue :: "ref list"
  taskObjects :: "ITaskInQueue list"
  dataObjects :: "'v QueueTaskData list"
  immediates :: "('w, 'v, 'x) immediate list"
  pending :: "'x attempt list"
  trace :: "('v, 'x) event list"

definition new_MemoryQueueStorage :: "('w, 'v, 'x) MemoryQueueStorage" where
  "new_MemoryQueueStorage =
     \<lparr>errorHandlers = [], executionHandlers = [], nextId = MIN_SAFE_INTEGER,
      tasksInQueue = [], taskObjects = [], dataObjects = [], immediates = [],
      pending = [], trace = []\<rparr>"

definition on ::
  "string \<Rightarrow> ('w, 'v, 'x) Func \<Rightarrow> ('w, 'v, 'x) MemoryQueueStorage
    \<Rightarrow> 'x failure + ('w, 'v, 'x) MemoryQueueStorage" where
  "on event handler s =
     (case handler of
        NotCallable \<Rightarrow> Inl (TypeError ''handler must be of type function'')
      | Callable eh xh \<Rightarrow>
          if event = ''error'' then Inr (s\<lparr>errorHandlers := errorHandlers s @ [eh]\<rparr>)
          else if event = ''execute''
          then Inr (s\<lparr>executionHandlers := executionHandlers s @ [xh]\<rparr>)
          else Inl (TypeError (event @ '' is no valid value for event argument'')))"

definition setStatus ::
  "ref \<Rightarrow> TaskInQueueStatus \<Rightarrow> ('w, 'v, 'x) MemoryQueueStorage
    \<Rightarrow> ('w, 'v, 'x) MemoryQueueStorage" where
  "setStatus t st s =
     s\<lparr>taskObjects := (taskObjects s)[t := (taskObjects s ! t)\<lparr>status := st\<rparr>]\<rparr>"

definition isStopped :: "ref \<Rightarrow> ('w, 'v, 'x) MemoryQueueStorage \<Rightarrow> bool" where
  "isStopped t s = (status (taskObjects s ! t) = Stopped)"

definition cleanupTasksInQueue ::
  "('w, 'v, 'x) MemoryQueueStorage \<Rightarrow> ('w, 'v, 'x) MemoryQueueStorage" where
  "cleanupTasksInQueue s =
     s\<lparr>tasksInQueue := filter (\<lambda>t. status (taskObjects s ! t) \<noteq> Succeded) (tasksInQueue s)\<rparr>"

text \<open>
  \<^verbatim>\<open>executeTask\<close> up to its call of \<^verbatim>\<open>setImmediate\<close>: the snapshot of the execution
  handlers, the early return, the destructuring of the options.
\<close>

definition executeTask ::
  "ref \<Rightarrow> ('w, 'v, 'x) MemoryQueueStorage \<Rightarrow> ('w, 'v, 'x) MemoryQueueStorage" where
  "executeTask taskInQueue s =
     (let executionHandlers' = executionHandlers s in
      if executionHandlers' = [] then s
      else
        let options' = options (taskObjects s ! taskInQueue) in
        s\<lparr>immediates := immediates s @
            [\<lparr>cl_taskInQueue = taskInQueue, cl_executionHandlers = executionHandlers',
              cl_data = data options', cl_key = key options'\<rparr>]\<rparr>)"

text \<open>
  The \<^verbatim>\<open>forEach\<close> over the error handlers in
  \<^verbatim>\<open>handleError\<close>.
\<close>

fun notifyErrorHandlers ::
  "'w \<Rightarrow> ref \<Rightarrow> 'x failure \<Rightarrow> nat \<Rightarrow> ('w, 'x) QueueErrorHandler list \<Rightarrow> ('v, 'x) event list" where
  "notifyErrorHandlers w t error i [] = []"
| "notifyErrorHandlers w t error i (handler # rest) =
     ErrorEvent t i error #
     (case handler w error of
        None \<Rightarrow> notifyErrorHandlers w t error (Suc i) rest
      | Some error2 \<Rightarrow> ConsoleError error2 # notifyErrorHandlers w t error (Suc i) rest)"

definition handleError ::
  "'w \<Rightarrow> ref \<Rightarrow> 'x failure \<Rightarrow> ('w, 'v, 'x) MemoryQueueStorage
    \<Rightarrow> ('w, 'v, 'x) MemoryQueueStorage" where
  "handleError w taskInQueue error s =
     (let shouldRetry = \<not> isStopped taskInQueue s;
          s1 = setStatus taskInQueue Failed s;
          s2 = s1\<lparr>trace := trace s1 @
                 notifyErrorHandlers w taskInQueue error 0 (errorHandlers s1)\<rparr>
      in if shouldRetry then executeTask taskInQueue s2 else s2)"

text \<open>
  \<^verbatim>\<open>executionHandlers.map(handler => Promise.resolve(handler(context)))\<close>: the
  handlers are called in order on the one context object; a handler that throws ends
  the \<^verbatim>\<open>map\<close>. The result is the calls made, the context's mapping afterwards, and
  either the thrown error or the promises.
\<close>

fun mapHandlers ::
  "'w \<Rightarrow> ref \<Rightarrow> ref \<Rightarrow> string \<Rightarrow> nat \<Rightarrow> ('w, 'v, 'x) QueueExecutionHandler list
    \<Rightarrow> 'v QueueTaskData
    \<Rightarrow> ('v, 'x) event list \<times> 'v QueueTaskData \<times> ('x failure + 'x outcome list)" where
  "mapHandlers w t c k i [] m = ([], m, Inr [])"
| "mapHandlers w t c k i (handler # rest) m =
     (case handler w m k of
        ((m', k'), Throws error) \<Rightarrow> ([ExecuteEvent t i c m k], m', Inl error)
      | ((m', k'), r) \<Rightarrow>
          (case mapHandlers w t c k' (Suc i) rest m' of
             (evs, m'', Inl error) \<Rightarrow> (ExecuteEvent t i c m k # evs, m'', Inl error)
           | (evs, m'', Inr rs) \<Rightarrow> (ExecuteEvent t i c m k # evs, m'', Inr (r # rs))))"

text \<open>The body of the callback given to \<^verbatim>\<open>setImmediate\<close>.\<close>

definition immediateCallback ::
  "'w \<Rightarrow> ('w, 'v, 'x) immediate \<Rightarrow> ('w, 'v, 'x) MemoryQueueStorage
    \<Rightarrow> ('w, 'v, 'x) MemoryQueueStorage" where
  "immediateCallback w cl s =
     (let t = cl_taskInQueue cl in
      if isStopped t s then s
      else
        let s1 = setStatus t Queued s;
            c = length (dataObjects s1);
            s2 = s1\<lparr>dataObjects := dataObjects s1 @ [dataObjects s1 ! cl_data cl]\<rparr>;
            s3 = setStatus t Running s2
        in case mapHandlers w t c (cl_key cl) 0 (cl_executionHandlers cl) (dataObjects s3 ! c) of
             (evs, m, res) \<Rightarrow>
               let s4 = (s3\<lparr>dataObjects := list_update (dataObjects s3) c m\<rparr>)
                          \<lparr>trace := trace s3 @ evs\<rparr>
               in case res of
                    Inl error \<Rightarrow> handleError w t error s4
                  | Inr ps \<Rightarrow>
                      s4\<lparr>pending := pending s4 @ [\<lparr>at_taskInQueue = t, at_promises = ps\<rparr>]\<rparr>)"

text \<open>The \<^verbatim>\<open>then\<close> callback of the attempt.\<close>

definition thenCallback ::
  "ref \<Rightarrow> ('w, 'v, 'x) MemoryQueueStorage \<Rightarrow> ('w, 'v, 'x) MemoryQueueStorage" where
  "thenCallback t s = cleanupTasksInQueue (setStatus t Succeded s)"

text \<open>
  The callback of the \<^verbatim>\<open>forEach\<close> in \<^verbatim>\<open>enqueueRemainingTasks\<close>: the object literal
  creates a new record, and it is this new record that \<^verbatim>\<open>executeTask\<close> receives.
\<close>

definition executeCopy ::
  "ref \<Rightarrow> ('w, 'v, 'x) MemoryQueueStorage \<Rightarrow> ('w, 'v, 'x) MemoryQueueStorage" where
  "executeCopy t s =
     executeTask (length (taskObjects s))
       (s\<lparr>taskObjects := taskObjects s @
            [\<lparr>id' = id' (taskObjects s ! t),
              options = options (taskObjects s ! t),
              status = status (taskObjects s ! t)\<rparr>]\<rparr>)"

definition enqueueRemainingTasks ::
  "('w, 'v, 'x) MemoryQueueStorage
    \<Rightarrow> IQueueTaskContext list \<times> ('w, 'v, 'x) MemoryQueueStorage" where
  "enqueueRemainingTasks s =
     (let result = [];
          tasksWithQueuedStatus =
            filter (\<lambda>t. status (taskObjects s ! t) = Queued) (tasksInQueue s)
      in (result, foldl (\<lambda>s' t. executeCopy t s') s tasksWithQueuedStatus))"

definition enqueueTask ::
  "IQueueTaskInStorageOptions \<Rightarrow> ('w, 'v, 'x) MemoryQueueStorage
    \<Rightarrow> IQueueTaskContext \<times> ('w, 'v, 'x) MemoryQueueStorage" where
  "enqueueTask options' s =
     (let id = String (nextId s);
          s1 = s\<lparr>nextId := increment (nextId s)\<rparr>;
          taskInQueue = length (taskObjects s1);
          s2 = s1\<lparr>taskObjects := taskObjects s1 @
                 [\<lparr>id' = id, options = options', status = Queued\<rparr>]\<rparr>;
          s3 = s2\<lparr>tasksInQueue := tasksInQueue s2 @ [taskInQueue]\<rparr>
      in (\<lparr>ctx_id = id\<rparr>, executeTask taskInQueue s3))"

definition stopAllEnqueuedTasks ::
  "('w, 'v, 'x) MemoryQueueStorage \<Rightarrow> ('w, 'v, 'x) MemoryQueueStorage" where
  "stopAllEnqueuedTasks s =
     (let tasksToStop =
            filter (\<lambda>t. status (taskObjects s ! t) = Queued \<or>
                        status (taskObjects s ! t) = Running \<or>
                        status (taskObjects s ! t) = Failed) (tasksInQueue s)
      in foldl (\<lambda>s' t. setStatus t Stopped s') s tasksToStop)"

section \<open>The event loop\<close>

text \<open>
  JavaScript runs one callback at a time and to completion. The program is therefore a
  sequence of turns: a call of the storage's interface by the code around it, the next
  callback of \<^verbatim>\<open>setImmediate\<close>, or the reaction to a \<^verbatim>\<open>Promise.all\<close> that settles. The
  turns may come in any order; what is proved of all sequences of turns holds of every
  schedule the runtime can produce. The methods of the storage are \<^verbatim>\<open>async\<close> functions
  without an \<^verbatim>\<open>await\<close>, so each runs within the turn of its call. Promises that nothing
  waits for (those of the handlers called before one that throws) play no part.
\<close>

text \<open>An object literal evaluated by the caller.\<close>

definition newObject ::
  "'v QueueTaskData \<Rightarrow> ('w, 'v, 'x) MemoryQueueStorage
    \<Rightarrow> ref \<times> ('w, 'v, 'x) MemoryQueueStorage" where
  "newObject m s = (length (dataObjects s), s\<lparr>dataObjects := dataObjects s @ [m]\<rparr>)"

text \<open>
  The next \<^verbatim>\<open>setImmediate\<close> callback runs; with none waiting the
  loop is idle.
\<close>

definition runImmediate ::
  "'w \<Rightarrow> ('w, 'v, 'x) MemoryQueueStorage \<Rightarrow> ('w, 'v, 'x) MemoryQueueStorage" where
  "runImmediate w s =
     (case immediates s of
        [] \<Rightarrow> s
      | cl # rest \<Rightarrow> immediateCallback w cl (s\<lparr>immediates := rest\<rparr>))"

text \<open>
  The \<^verbatim>\<open>Promise.all\<close> of the \<open>i\<close>-th waiting attempt settles: fulfilled when every
  promise fulfils, rejected with the error of promise \<open>j\<close> when that one rejects (the
  first rejection to arrive wins, and any may be first). While neither is possible the
  attempt keeps waiting.
\<close>

definition settle ::
  "'w \<Rightarrow> nat \<Rightarrow> nat \<Rightarrow> ('w, 'v, 'x) MemoryQueueStorage \<Rightarrow> ('w, 'v, 'x) MemoryQueueStorage" where
  "settle w i j s =
     (if i < length (pending s) then
        let at = pending s ! i;
            s' = s\<lparr>pending := take i (pending s) @ drop (Suc i) (pending s)\<rparr>
        in if list_all (\<lambda>p. p = Fulfils) (at_promises at)
           then thenCallback (at_taskInQueue at) s'
           else if j < length (at_promises at) then
             (case at_promises at ! j of
                Rejects error \<Rightarrow> handleError w (at_taskInQueue at) error s'
              | _ \<Rightarrow> s)
           else s
      else s)"

text \<open>
  One turn of the program: a call of the storage's interface from outside, or the
  event loop running one callback to completion. A reference handed to
  \<^verbatim>\<open>enqueueTask\<close> designates an object that exists.
\<close>

datatype ('w, 'v, 'x) action =
  NewObject "'v QueueTaskData"
| On string "('w, 'v, 'x) Func"
| EnqueueTask IQueueTaskInStorageOptions
| EnqueueRemainingTasks
| StopAllEnqueuedTasks
| RunImmediate 'w
| Settle 'w nat nat

fun step ::
  "('w, 'v, 'x) action \<Rightarrow> ('w, 'v, 'x) MemoryQueueStorage \<Rightarrow> ('w, 'v, 'x) MemoryQueueStorage" where
  "step (NewObject m) s = snd (newObject m s)"
| "step (On event handler) s = (case on event handler s of Inl _ \<Rightarrow> s | Inr s' \<Rightarrow> s')"
| "step (EnqueueTask options') s =
     (if data options' < length (dataObjects s) then snd (enqueueTask options' s) else s)"
| "step EnqueueRemainingTasks s = snd (enqueueRemainingTasks s)"
| "step StopAllEnqueuedTasks s = stopAllEnqueuedTasks s"
| "step (RunImmediate w) s = runImmediate w s"
| "step (Settle w i j) s = settle w i j s"

definition run ::
  "('w, 'v, 'x) action list \<Rightarrow> ('w, 'v, 'x) MemoryQueueStorage \<Rightarrow> ('w, 'v, 'x) MemoryQueueStorage" where
  "run acts s = foldl (\<lambda>s' a. step a s') s acts"

section \<open>Queue\<close>

type_synonym ('v, 'x) QueueTask =
  "'v QueueTaskData \<Rightarrow> string \<Rightarrow> 'v QueueTaskData \<times> 'x outcome"

text \<open>
  What a property of the \<^verbatim>\<open>_tasks\<close> object can hold, as far as \<^verbatim>\<open>typeof\<close> and a call
  tell: a task function, one of the functions every plain object inherits from
  \<^verbatim>\<open>Object.prototype\<close>, or a value that is no function (\<^verbatim>\<open>undefined\<close> included).
\<close>

datatype ('v, 'x) jsvalue =
  Function "('v, 'x) QueueTask"
| ObjectPrototypeFunction string
| NotFunction

definition isFunction :: "('v, 'x) jsvalue \<Rightarrow> bool" where
  "isFunction v = (case v of NotFunction \<Rightarrow> False | _ \<Rightarrow> True)"

record ('v, 'x) Queue =
  queueErrorHandlers :: "('x failure \<Rightarrow> 'x outcome) list"
  isRunning :: bool
  tasks :: "string \<rightharpoonup> ('v, 'x) jsvalue"

definition new_Queue :: "('v, 'x) Queue" where
  "new_Queue = \<lparr>queueErrorHandlers = [], isRunning = False, tasks = Map.empty\<rparr>"

text \<open>
  \<^verbatim>\<open>_tasks\<close> is created by the literal \<^verbatim>\<open>{}\<close>, so a read \<^verbatim>\<open>this._tasks[key]\<close> that finds
  no own property goes on to \<^verbatim>\<open>Object.prototype\<close>. These are its function-valued
  properties; its accessor \<^verbatim>\<open>__proto__\<close> reads as an object, every other name as
  \<^verbatim>\<open>undefined\<close>.
\<close>

definition objectPrototypeFunctions :: "string list" where
  "objectPrototypeFunctions =
     [''constructor'', ''hasOwnProperty'', ''isPrototypeOf'', ''propertyIsEnumerable'',
      ''toLocaleString'', ''toString'', ''valueOf'', ''__defineGetter__'',
      ''__defineSetter__'', ''__lookupGetter__'', ''__lookupSetter__'']"

definition getTask :: "(string \<rightharpoonup> ('v, 'x) jsvalue) \<Rightarrow> string \<Rightarrow> ('v, 'x) jsvalue" where
  "getTask tasks' key' =
     (case tasks' key' of
        Some v \<Rightarrow> v
      | None \<Rightarrow>
          if key' \<in> set objectPrototypeFunctions then ObjectPrototypeFunction key'
          else NotFunction)"

text \<open>
  A function of \<^verbatim>\<open>Object.prototype\<close> called as the bridge calls a task: no receiver,
  one object as argument. \<^verbatim>\<open>toString\<close> answers for an undefined receiver and
  \<^verbatim>\<open>constructor\<close> returns its argument; the others convert the receiver to an object
  first, which throws.
\<close>

definition callObjectPrototypeFunction :: "string \<Rightarrow> 'x outcome" where
  "callObjectPrototypeFunction name =
     (if name = ''toString'' \<or> name = ''constructor'' then Fulfils
      else Throws (TypeError ''Cannot convert undefined or null to object''))"

text \<open>
  The handler \<^verbatim>\<open>init\<close> subscribes to
  \<^verbatim>\<open>"execute"\<close>.
\<close>

definition executeBridge :: "(('v, 'x) Queue, 'v, 'x) QueueExecutionHandler" where
  "executeBridge q data' taskKey =
     (case getTask (tasks q) taskKey of
        NotFunction \<Rightarrow> ((data', taskKey), Fulfils)
      | Function task \<Rightarrow>
          (case task data' taskKey of (data'', r) \<Rightarrow> ((data'', taskKey), r))
      | ObjectPrototypeFunction name \<Rightarrow>
          ((data', taskKey), callObjectPrototypeFunction name))"

text \<open>
  The handler \<^verbatim>\<open>init\<close> subscribes to \<^verbatim>\<open>"error"\<close>: it passes the error on to the
  queue's own error handlers and catches whatever they throw or reject with.
\<close>

definition errorBridge :: "(('v, 'x) Queue, 'x) QueueErrorHandler" where
  "errorBridge q error = None"

definition init ::
  "(('v, 'x) Queue, 'v, 'x) MemoryQueueStorage \<Rightarrow> (('v, 'x) Queue, 'v, 'x) MemoryQueueStorage" where
  "init storage =
     (storage\<lparr>errorHandlers := errorHandlers storage @ [errorBridge]\<rparr>)
       \<lparr>executionHandlers := executionHandlers storage @ [executeBridge]\<rparr>"

text \<open>
  The storage of a queue constructed without options: an instance of the class
  \<^verbatim>\<open>MemoryQueueStorage\<close> that the file of the queue imports. The queue reaches it through
  its members, read by name. Of the members that take the options of a task the class,
  its base class and the interface \<^verbatim>\<open>IQueueStorage\<close> declare \<^verbatim>\<open>enqueueTask\<close> and no
  other: a read under another name (\<^verbatim>\<open>queueTask\<close>, the name the method had before
  version 2.0.0, among them) yields \<^verbatim>\<open>undefined\<close>.
\<close>

definition submitMethod ::
  "string \<Rightarrow> (IQueueTaskInStorageOptions \<Rightarrow> ('w, 'v, 'x) MemoryQueueStorage
     \<Rightarrow> IQueueTaskContext \<times> ('w, 'v, 'x) MemoryQueueStorage) option" where
  "submitMethod name = (if name = ''enqueueTask'' then Some enqueueTask else None)"

text \<open>
  \<^verbatim>\<open>enqueue\<close>, an \<^verbatim>\<open>async\<close> function: what it throws is the rejection of its promise.
  \<open>optionsData\<close> is \<^verbatim>\<open>options?.data\<close>. The call \<^verbatim>\<open>storage.queueTask({...})\<close> reads
  the member, evaluates the argument (the literal \<^verbatim>\<open>{}\<close> creates an object when no data
  was given), and throws a \<^verbatim>\<open>TypeError\<close> when what it read is no function.
\<close>

definition enqueue ::
  "('v, 'x) Queue \<Rightarrow> string \<Rightarrow> ref option \<Rightarrow> ('w, 'v, 'x) MemoryQueueStorage
    \<Rightarrow> ('x failure + IQueueTaskContext) \<times> ('w, 'v, 'x) MemoryQueueStorage" where
  "enqueue q key' optionsData storage =
     (let task = getTask (tasks q) key' in
      if \<not> isFunction task then (Inl (Error (''No task found for key '' @ key')), storage)
      else
        let queueTask = submitMethod ''queueTask'' in
        case (case optionsData of Some d \<Rightarrow> (d, storage) | None \<Rightarrow> newObject Map.empty storage) of
          (d, storage') \<Rightarrow>
            (case queueTask of
               None \<Rightarrow> (Inl (TypeError ''storage.queueTask is not a function''), storage')
             | Some submit \<Rightarrow>
                 (case submit \<lparr>data = d, key = key'\<rparr> storage' of
                    (context, storage'') \<Rightarrow> (Inr context, storage''))))"

text \<open>
  \<^verbatim>\<open>register\<close>. The first argument is one pair, a dictionary (given by its entries in
  the order of \<^verbatim>\<open>Object.entries\<close>), \<^verbatim>\<open>null\<close>, or a value that is neither array nor
  object. A \<^verbatim>\<open>throw\<close> leaves the registry as it is at that moment, so the result is the
  error, if any, and the registry.
\<close>

datatype ('v, 'x) registerArg =
  Pair string "('v, 'x) jsvalue"
| Dictionary "(string \<times> ('v, 'x) jsvalue) list"
| Null
| NoObject

fun checkEntries ::
  "nat \<Rightarrow> (string \<times> ('v, 'x) jsvalue) list \<Rightarrow> 'x failure option" where
  "checkEntries index [] = None"
| "checkEntries index (entry # rest) =
     (if \<not> isFunction (snd entry)
      then Some (TypeError (''Entry #'' @ decimal index @ '' ('' @ fst entry @
                            '') of taskDict must be of type function''))
      else checkEntries (Suc index) rest)"

text \<open>
  The \<^verbatim>\<open>forEach\<close> over \<^verbatim>\<open>tasksToAdd\<close>. An assignment \<^verbatim>\<open>this._tasks[key] = action\<close>
  creates or overwrites an own property, for every key but one: under \<^verbatim>\<open>__proto__\<close>
  the object inherits an accessor, so the assignment creates no property, and a value
  that is an object (a function is one) becomes the prototype of \<^verbatim>\<open>_tasks\<close>. What the
  reads of \<^verbatim>\<open>_tasks\<close> find from then on depends on that object and is not described by
  \<open>getTask\<close>, which reads an object whose prototype is \<^verbatim>\<open>Object.prototype\<close>. The model
  ends at such an assignment: the result is \<open>None\<close>, and no registry follows it.
\<close>

fun addTasks ::
  "(string \<times> ('v, 'x) jsvalue) list \<Rightarrow> (string \<rightharpoonup> ('v, 'x) jsvalue)
    \<Rightarrow> ('x failure option \<times> (string \<rightharpoonup> ('v, 'x) jsvalue)) option" where
  "addTasks [] tasks' = Some (None, tasks')"
| "addTasks ((key', action) # rest) tasks' =
     (if isFunction (getTask tasks' key')
      then Some (Some (Error (''Task cannot be reset for key '' @ key')), tasks')
      else if key' = ''__proto__'' then None
      else addTasks rest (tasks'(key' \<mapsto> action)))"

text \<open>
  The list \<^verbatim>\<open>tasksToAdd\<close>, or the
  \<^verbatim>\<open>TypeError\<close> thrown while it is built.
\<close>

definition tasksToAdd ::
  "('v, 'x) registerArg \<Rightarrow> (string \<times> ('v, 'x) jsvalue) list
    \<Rightarrow> 'x failure + (string \<times> ('v, 'x) jsvalue) list" where
  "tasksToAdd arg1 moreTasks =
     (case arg1 of
        Pair key' action \<Rightarrow> Inr ((key', action) # moreTasks)
      | Dictionary entries \<Rightarrow>
          (case checkEntries 0 entries of
             Some error \<Rightarrow> Inl error
           | None \<Rightarrow> Inr (entries @ moreTasks))
      | Null \<Rightarrow> Inl (TypeError ''Cannot convert undefined or null to object'')
      | NoObject \<Rightarrow> Inl (TypeError ''arg1 must be of type object or array''))"

definition register ::
  "('v, 'x) registerArg \<Rightarrow> (string \<times> ('v, 'x) jsvalue) list \<Rightarrow> ('v, 'x) Queue
    \<Rightarrow> ('x failure option \<times> ('v, 'x) Queue) option" where
  "register arg1 moreTasks q =
     (case tasksToAdd arg1 moreTasks of
        Inl error \<Rightarrow> Some (Some error, q)
      | Inr batch \<Rightarrow>
          (case addTasks batch (tasks q) of
             None \<Rightarrow> None
           | Some (r, tasks') \<Rightarrow> Some (r, q\<lparr>tasks := tasks'\<rparr>)))"

definition Queue_on ::
  "string \<Rightarrow> ('x failure \<Rightarrow> 'x outcome) \<Rightarrow> ('v, 'x) Queue \<Rightarrow> 'x failure + ('v, 'x) Queue" where
  "Queue_on event handler q =
     (if event = ''error'' then Inr (q\<lparr>queueErrorHandlers := queueErrorHandlers q @ [handler]\<rparr>)
      else Inl (TypeError (event @ '' is no valid value for event argument'')))"

definition start :: "('v, 'x) Queue \<Rightarrow> bool \<times> ('v, 'x) Queue" where
  "start q = (if isRunning q then (False, q) else (True, q\<lparr>isRunning := True\<rparr>))"

definition stop :: "('v, 'x) Queue \<Rightarrow> bool \<times> ('v, 'x) Queue" where
  "stop q = (if \<not> isRunning q then (False, q) else (True, q\<lparr>isRunning := False\<rparr>))"

section \<open>Notions used in the statements\<close>


text \<open>The calls of execution handlers made for the record \<open>t\<close>.\<close>

fun isExecuteOf :: "ref \<Rightarrow> ('v, 'x) event \<Rightarrow> bool" where
  "isExecuteOf t (ExecuteEvent t' i c m k) = (t' = t)"
| "isExecuteOf t _ = False"

text \<open>
  The records that have an attempt under way: a callback waiting in the queue of
  \<^verbatim>\<open>setImmediate\<close>, or handlers called and not yet settled.
\<close>

definition scheduled :: "('w, 'v, 'x) MemoryQueueStorage \<Rightarrow> ref list" where
  "scheduled s = map cl_taskInQueue (immediates s) @ map at_taskInQueue (pending s)"

text \<open>
  What every state the program reaches satisfies: references designate objects, no
  record has two attempts under way, and none under way once it has succeeded.
\<close>

definition invariant :: "('w, 'v, 'x) MemoryQueueStorage \<Rightarrow> bool" where
  "invariant s \<longleftrightarrow>
     list_all (\<lambda>t. t < length (taskObjects s)) (tasksInQueue s @ scheduled s) \<and>
     distinct (scheduled s) \<and>
     list_all (\<lambda>t. status (taskObjects s ! t) \<noteq> Succeded) (scheduled s)"

text \<open>
  The record whose attempt an event-loop turn continues: the one of the callback
  that runs, or of the \<^verbatim>\<open>Promise.all\<close> that settles.
\<close>

fun target :: "('w, 'v, 'x) action \<Rightarrow> ('w, 'v, 'x) MemoryQueueStorage \<Rightarrow> ref option" where
  "target (RunImmediate w) s =
     (case immediates s of [] \<Rightarrow> None | cl # rest \<Rightarrow> Some (cl_taskInQueue cl))"
| "target (Settle w i j) s =
     (if i < length (pending s) then Some (at_taskInQueue (pending s ! i)) else None)"
| "target a s = None"

fun isSettle :: "('w, 'v, 'x) action \<Rightarrow> bool" where
  "isSettle (Settle w i j) = True"
| "isSettle a = False"

fun isEnqueueTask :: "('w, 'v, 'x) action \<Rightarrow> bool" where
  "isEnqueueTask (EnqueueTask options') = True"
| "isEnqueueTask a = False"



text \<open>
  A record for which no attempt will run: stopped, or with no attempt under way.
\<close>

definition halted :: "ref \<Rightarrow> ('w, 'v, 'x) MemoryQueueStorage \<Rightarrow> bool" where
  "halted t s \<longleftrightarrow>
     t < length (taskObjects s) \<and> (isStopped t s \<or> t \<notin> set (scheduled s))"

text \<open>A record that sits in the backing list with no attempt under way.\<close>

definition dormant :: "ref \<Rightarrow> ('w, 'v, 'x) MemoryQueueStorage \<Rightarrow> bool" where
  "dormant t s \<longleftrightarrow>
     t \<in> set (tasksInQueue s) \<and> t \<notin> set (scheduled s) \<and>
     (status (taskObjects s ! t) = Queued \<or> status (taskObjects s ! t) = Stopped)"

text \<open>The mapping held by the data object of the stored record \<open>t\<close>.\<close>

definition recordData :: "('w, 'v, 'x) MemoryQueueStorage \<Rightarrow> ref \<Rightarrow> 'v QueueTaskData" where
  "recordData s t = dataObjects s ! data (options (taskObjects s ! t))"

text \<open>
  Also true of every state the program reaches: the data reference of a record
  designates an object, and a waiting callback holds the data reference and the key of
  its record.
\<close>

definition consistent :: "('w, 'v, 'x) MemoryQueueStorage \<Rightarrow> bool" where
  "consistent s \<longleftrightarrow>
     list_all (\<lambda>r. data (options r) < length (dataObjects s)) (taskObjects s) \<and>
     list_all (\<lambda>cl. cl_taskInQueue cl < length (taskObjects s) \<and>
                    cl_data cl = data (options (taskObjects s ! cl_taskInQueue cl)) \<and>
                    cl_key cl = key (options (taskObjects s ! cl_taskInQueue cl)))
       (immediates s)"

section \<open>Basic facts\<close>

subsection \<open>setStatus\<close>

lemma setStatus_frame [simp]:
  "errorHandlers (setStatus t st s) = errorHandlers s"
  "executionHandlers (setStatus t st s) = executionHandlers s"
  "nextId (setStatus t st s) = nextId s"
  "tasksInQueue (setStatus t st s) = tasksInQueue s"
  "dataObjects (setStatus t st s) = dataObjects s"
  "immediates (setStatus t st s) = immediates s"
  "pending (setStatus t st s) = pending s"
  "trace (setStatus t st s) = trace s"
  "length (taskObjects (setStatus t st s)) = length (taskObjects s)"
  by (simp_all add: setStatus_def)

lemma setStatus_options [simp]:
  "options (taskObjects (setStatus t st s) ! u) = options (taskObjects s ! u)"
  by (cases "t < length (taskObjects s)"; cases "u = t")
     (simp_all add: setStatus_def not_less list_update_beyond)

lemma setStatus_id [simp]:
  "id' (taskObjects (setStatus t st s) ! u) = id' (taskObjects s ! u)"
  by (cases "t < length (taskObjects s)"; cases "u = t")
     (simp_all add: setStatus_def not_less list_update_beyond)

lemma setStatus_status [simp]:
  "status (taskObjects (setStatus t st s) ! u) =
     (if u = t \<and> t < length (taskObjects s) then st else status (taskObjects s ! u))"
  by (cases "t < length (taskObjects s)"; cases "u = t")
     (simp_all add: setStatus_def not_less list_update_beyond)

lemma setStatus_ids [simp]:
  "map id' (taskObjects (setStatus t st s)) = map id' (taskObjects s)"
  by (rule nth_equalityI) simp_all

lemma setStatus_update [simp]:
  "setStatus t st (s\<lparr>dataObjects := d\<rparr>) = (setStatus t st s)\<lparr>dataObjects := d\<rparr>"
  "setStatus t st (s\<lparr>trace := tr\<rparr>) = (setStatus t st s)\<lparr>trace := tr\<rparr>"
  "setStatus t st (s\<lparr>immediates := im\<rparr>) = (setStatus t st s)\<lparr>immediates := im\<rparr>"
  "setStatus t st (s\<lparr>pending := pe\<rparr>) = (setStatus t st s)\<lparr>pending := pe\<rparr>"
  by (simp_all add: setStatus_def)

lemma scheduled_setStatus [simp]: "scheduled (setStatus t st s) = scheduled s"
  by (simp add: scheduled_def)

lemma isStopped_setStatus [simp]:
  "isStopped u (setStatus t st s) =
     (if u = t \<and> t < length (taskObjects s) then st = Stopped else isStopped u s)"
  by (simp add: isStopped_def)

subsection \<open>executeTask\<close>

lemma executeTask_frame [simp]:
  "errorHandlers (executeTask t s) = errorHandlers s"
  "executionHandlers (executeTask t s) = executionHandlers s"
  "nextId (executeTask t s) = nextId s"
  "tasksInQueue (executeTask t s) = tasksInQueue s"
  "taskObjects (executeTask t s) = taskObjects s"
  "dataObjects (executeTask t s) = dataObjects s"
  "pending (executeTask t s) = pending s"
  "trace (executeTask t s) = trace s"
  by (simp_all add: executeTask_def Let_def)

lemma executeTask_immediates:
  "immediates (executeTask t s) =
     (if executionHandlers s = [] then immediates s
      else immediates s @
        [\<lparr>cl_taskInQueue = t, cl_executionHandlers = executionHandlers s,
          cl_data = data (options (taskObjects s ! t)),
          cl_key = key (options (taskObjects s ! t))\<rparr>])"
  by (simp add: executeTask_def Let_def)

lemma scheduled_executeTask:
  "scheduled (executeTask t s) =
     (if executionHandlers s = [] then scheduled s
      else map cl_taskInQueue (immediates s) @ t # map at_taskInQueue (pending s))"
  by (simp add: scheduled_def executeTask_immediates)

subsection \<open>handleError\<close>

lemma handleError_frame [simp]:
  "errorHandlers (handleError w t e s) = errorHandlers s"
  "executionHandlers (handleError w t e s) = executionHandlers s"
  "nextId (handleError w t e s) = nextId s"
  "tasksInQueue (handleError w t e s) = tasksInQueue s"
  "taskObjects (handleError w t e s) = taskObjects (setStatus t Failed s)"
  "dataObjects (handleError w t e s) = dataObjects s"
  "pending (handleError w t e s) = pending s"
  "trace (handleError w t e s) = trace s @ notifyErrorHandlers w t e 0 (errorHandlers s)"
  by (simp_all add: handleError_def Let_def)

lemma handleError_immediates:
  "immediates (handleError w t e s) =
     (if isStopped t s \<or> executionHandlers s = [] then immediates s
      else immediates s @
        [\<lparr>cl_taskInQueue = t, cl_executionHandlers = executionHandlers s,
          cl_data = data (options (taskObjects s ! t)),
          cl_key = key (options (taskObjects s ! t))\<rparr>])"
  by (simp add: handleError_def Let_def executeTask_immediates)

lemma scheduled_handleError:
  "scheduled (handleError w t e s) =
     (if isStopped t s \<or> executionHandlers s = [] then scheduled s
      else map cl_taskInQueue (immediates s) @ t # map at_taskInQueue (pending s))"
  by (simp add: scheduled_def handleError_immediates)

subsection \<open>The callback of setImmediate\<close>

lemma immediateCallback_stopped:
  "isStopped (cl_taskInQueue cl) s \<Longrightarrow> immediateCallback w cl s = s"
  by (simp add: immediateCallback_def)

text \<open>The state in which the handlers of an attempt have been called.\<close>

lemma immediateCallback_running:
  assumes "\<not> isStopped (cl_taskInQueue cl) s"
    and "mapHandlers w (cl_taskInQueue cl) (length (dataObjects s)) (cl_key cl) 0
            (cl_executionHandlers cl) (dataObjects s ! cl_data cl) = (evs, m, res)"
  shows "immediateCallback w cl s =
     (let s4 = (setStatus (cl_taskInQueue cl) Running s)
                 \<lparr>dataObjects := dataObjects s @ [m], trace := trace s @ evs\<rparr>
      in case res of
           Inl e \<Rightarrow> handleError w (cl_taskInQueue cl) e s4
         | Inr ps \<Rightarrow> s4\<lparr>pending := pending s @ [\<lparr>at_taskInQueue = cl_taskInQueue cl, at_promises = ps\<rparr>]\<rparr>)"
proof -
  have "setStatus (cl_taskInQueue cl) Running (setStatus (cl_taskInQueue cl) Queued s) =
        setStatus (cl_taskInQueue cl) Running s"
    by (cases "cl_taskInQueue cl < length (taskObjects s)")
       (simp_all add: setStatus_def list_update_beyond)
  with assms show ?thesis
    by (simp add: immediateCallback_def Let_def nth_append split: sum.split)
qed

subsection \<open>Evaluation of concrete runs\<close>

lemma String_MIN_SAFE_INTEGER: "String MIN_SAFE_INTEGER = ''-9007199254740991''"
  by (simp add: String_def MIN_SAFE_INTEGER_def decimal.simps digit_def)

lemmas eval_defs = run_def on_def newObject_def enqueueTask_def executeTask_def runImmediate_def
  immediateCallback_def setStatus_def handleError_def settle_def new_MemoryQueueStorage_def
  isStopped_def thenCallback_def cleanupTasksInQueue_def stopAllEnqueuedTasks_def
  enqueueRemainingTasks_def executeCopy_def Let_def String_MIN_SAFE_INTEGER

subsection \<open>Failed attempts\<close>









subsection \<open>The calls made in an attempt\<close>

lemma mapHandlers_events':
  "mapHandlers w t c k i hs m = (evs, m', res) \<Longrightarrow> ev \<in> set evs \<Longrightarrow>
     \<exists>i' m'' k'. ev = ExecuteEvent t i' c m'' k'"
proof (induction hs arbitrary: i m k evs m' res)
  case Nil
  then show ?case by simp
next
  case (Cons h hs)
  obtain m1 k1 r where h: "h w m k = ((m1, k1), r)"
    by (cases "h w m k") auto
  obtain evs1 m2 res1 where rest: "mapHandlers w t c k1 (Suc i) hs m1 = (evs1, m2, res1)"
    by (cases "mapHandlers w t c k1 (Suc i) hs m1")
  from Cons.prems h rest have "ev = ExecuteEvent t i c m k \<or> ev \<in> set evs1"
    by (cases r; cases res1) auto
  with Cons.IH[OF rest] show ?case by blast
qed

lemma mapHandlers_events:
  "ev \<in> set (fst (mapHandlers w t c k i hs m)) \<Longrightarrow> \<exists>i' m' k'. ev = ExecuteEvent t i' c m' k'"
  using mapHandlers_events'[of w t c k i hs m] by (cases "mapHandlers w t c k i hs m") auto

lemma mapHandlers_other_record:
  "u \<noteq> t \<Longrightarrow> filter (isExecuteOf u) (fst (mapHandlers w t c k i hs m)) = []"
  by (auto simp: filter_empty_conv dest: mapHandlers_events)

lemma mapHandlers_Nil: "mapHandlers w t c k i [] m = ([], m, Inr [])"
  by simp

lemma notify_no_execute [simp]:
  "filter (isExecuteOf u) (notifyErrorHandlers w t e i hs) = []"
  by (induction hs arbitrary: i) (simp_all split: option.split)

subsection \<open>cleanup, then, settle\<close>

lemma cleanupTasksInQueue_frame [simp]:
  "errorHandlers (cleanupTasksInQueue s) = errorHandlers s"
  "executionHandlers (cleanupTasksInQueue s) = executionHandlers s"
  "nextId (cleanupTasksInQueue s) = nextId s"
  "taskObjects (cleanupTasksInQueue s) = taskObjects s"
  "dataObjects (cleanupTasksInQueue s) = dataObjects s"
  "immediates (cleanupTasksInQueue s) = immediates s"
  "pending (cleanupTasksInQueue s) = pending s"
  "trace (cleanupTasksInQueue s) = trace s"
  "tasksInQueue (cleanupTasksInQueue s) =
     filter (\<lambda>t. status (taskObjects s ! t) \<noteq> Succeded) (tasksInQueue s)"
  by (simp_all add: cleanupTasksInQueue_def)

lemma thenCallback_frame [simp]:
  "errorHandlers (thenCallback t s) = errorHandlers s"
  "executionHandlers (thenCallback t s) = executionHandlers s"
  "nextId (thenCallback t s) = nextId s"
  "taskObjects (thenCallback t s) = taskObjects (setStatus t Succeded s)"
  "dataObjects (thenCallback t s) = dataObjects s"
  "immediates (thenCallback t s) = immediates s"
  "pending (thenCallback t s) = pending s"
  "trace (thenCallback t s) = trace s"
  "tasksInQueue (thenCallback t s) =
     filter (\<lambda>u. status (taskObjects (setStatus t Succeded s) ! u) \<noteq> Succeded) (tasksInQueue s)"
  by (simp_all add: thenCallback_def)

text \<open>The three ways \<open>settle\<close> can go.\<close>

lemma settle_cases:
  "settle w i j s = s \<or>
   (i < length (pending s) \<and>
    settle w i j s = thenCallback (at_taskInQueue (pending s ! i))
      (s\<lparr>pending := take i (pending s) @ drop (Suc i) (pending s)\<rparr>)) \<or>
   (\<exists>e. i < length (pending s) \<and>
      settle w i j s = handleError w (at_taskInQueue (pending s ! i)) e
        (s\<lparr>pending := take i (pending s) @ drop (Suc i) (pending s)\<rparr>))"
  by (simp add: settle_def Let_def split: outcome.split) blast

subsection \<open>enqueueTask, enqueueRemainingTasks, stopAllEnqueuedTasks\<close>

lemma enqueueTask_frame [simp]:
  "errorHandlers (snd (enqueueTask opts s)) = errorHandlers s"
  "executionHandlers (snd (enqueueTask opts s)) = executionHandlers s"
  "nextId (snd (enqueueTask opts s)) = increment (nextId s)"
  "tasksInQueue (snd (enqueueTask opts s)) = tasksInQueue s @ [length (taskObjects s)]"
  "taskObjects (snd (enqueueTask opts s)) =
     taskObjects s @ [\<lparr>id' = String (nextId s), options = opts, status = Queued\<rparr>]"
  "dataObjects (snd (enqueueTask opts s)) = dataObjects s"
  "pending (snd (enqueueTask opts s)) = pending s"
  "trace (snd (enqueueTask opts s)) = trace s"
  "fst (enqueueTask opts s) = \<lparr>ctx_id = String (nextId s)\<rparr>"
  by (simp_all add: enqueueTask_def Let_def)

lemma enqueueTask_immediates:
  "immediates (snd (enqueueTask opts s)) =
     (if executionHandlers s = [] then immediates s
      else immediates s @
        [\<lparr>cl_taskInQueue = length (taskObjects s), cl_executionHandlers = executionHandlers s,
          cl_data = data opts, cl_key = key opts\<rparr>])"
  by (simp add: enqueueTask_def Let_def executeTask_immediates)

lemma scheduled_enqueueTask:
  "scheduled (snd (enqueueTask opts s)) =
     (if executionHandlers s = [] then scheduled s
      else map cl_taskInQueue (immediates s) @ length (taskObjects s) # map at_taskInQueue (pending s))"
  by (simp add: scheduled_def enqueueTask_immediates)

lemma executeCopy_frame [simp]:
  "errorHandlers (executeCopy t s) = errorHandlers s"
  "executionHandlers (executeCopy t s) = executionHandlers s"
  "nextId (executeCopy t s) = nextId s"
  "tasksInQueue (executeCopy t s) = tasksInQueue s"
  "taskObjects (executeCopy t s) = taskObjects s @
     [\<lparr>id' = id' (taskObjects s ! t), options = options (taskObjects s ! t),
       status = status (taskObjects s ! t)\<rparr>]"
  "dataObjects (executeCopy t s) = dataObjects s"
  "pending (executeCopy t s) = pending s"
  "trace (executeCopy t s) = trace s"
  by (simp_all add: executeCopy_def)

lemma scheduled_executeCopy:
  "scheduled (executeCopy t s) =
     (if executionHandlers s = [] then scheduled s
      else map cl_taskInQueue (immediates s) @ length (taskObjects s) # map at_taskInQueue (pending s))"
  by (simp add: executeCopy_def scheduled_executeTask) (simp add: scheduled_def)

subsection \<open>The invariant\<close>

lemma invariant_iff:
  "invariant s \<longleftrightarrow>
     (\<forall>t \<in> set (tasksInQueue s). t < length (taskObjects s)) \<and>
     (\<forall>t \<in> set (scheduled s). t < length (taskObjects s) \<and>
        status (taskObjects s ! t) \<noteq> Succeded) \<and>
     distinct (scheduled s)"
  by (auto simp: invariant_def list_all_iff)

lemma scheduled_update [simp]:
  "scheduled (s\<lparr>dataObjects := d\<rparr>) = scheduled s"
  "scheduled (s\<lparr>trace := tr\<rparr>) = scheduled s"
  "scheduled (s\<lparr>taskObjects := ts\<rparr>) = scheduled s"
  "scheduled (s\<lparr>tasksInQueue := q\<rparr>) = scheduled s"
  "scheduled (s\<lparr>nextId := n\<rparr>) = scheduled s"
  "scheduled (s\<lparr>errorHandlers := eh\<rparr>) = scheduled s"
  "scheduled (s\<lparr>executionHandlers := xh\<rparr>) = scheduled s"
  by (simp_all add: scheduled_def)

lemma invariant_new: "invariant new_MemoryQueueStorage"
  by (simp add: invariant_iff new_MemoryQueueStorage_def scheduled_def)

lemma invariant_setStatus:
  "invariant s \<Longrightarrow> st \<noteq> Succeded \<Longrightarrow> invariant (setStatus t st s)"
  by (simp add: invariant_iff)

lemma scheduled_with:
  "set (map cl_taskInQueue (immediates s) @ t # map at_taskInQueue (pending s)) =
     insert t (set (scheduled s))"
  "distinct (map cl_taskInQueue (immediates s) @ t # map at_taskInQueue (pending s)) \<longleftrightarrow>
     t \<notin> set (scheduled s) \<and> distinct (scheduled s)"
  by (auto simp: scheduled_def)

lemma scheduled_handleError_set:
  "set (scheduled (handleError w t e s)) =
     (if isStopped t s \<or> executionHandlers s = [] then set (scheduled s)
      else insert t (set (scheduled s)))"
  by (cases "isStopped t s \<or> executionHandlers s = []")
     (simp_all only: scheduled_handleError scheduled_with if_True if_False)

lemma scheduled_handleError_distinct:
  "distinct (scheduled (handleError w t e s)) \<longleftrightarrow>
     (if isStopped t s \<or> executionHandlers s = [] then distinct (scheduled s)
      else t \<notin> set (scheduled s) \<and> distinct (scheduled s))"
  by (cases "isStopped t s \<or> executionHandlers s = []")
     (simp_all only: scheduled_handleError scheduled_with if_True if_False)

lemma scheduled_push_pending:
  "set (scheduled (s\<lparr>pending := pending s @ [\<lparr>at_taskInQueue = t, at_promises = ps\<rparr>]\<rparr>)) =
     insert t (set (scheduled s))"
  "distinct (scheduled (s\<lparr>pending := pending s @ [\<lparr>at_taskInQueue = t, at_promises = ps\<rparr>]\<rparr>)) \<longleftrightarrow>
     t \<notin> set (scheduled s) \<and> distinct (scheduled s)"
  by (auto simp: scheduled_def)

lemma scheduled_pop_immediate:
  "immediates s = cl # rest \<Longrightarrow>
     scheduled s = cl_taskInQueue cl # scheduled (s\<lparr>immediates := rest\<rparr>)"
  by (simp add: scheduled_def)

lemma remove_nth_distinct:
  assumes "distinct (map f xs)" "i < length xs"
  shows "distinct (map f (take i xs @ drop (Suc i) xs))"
    and "f (xs ! i) \<notin> f ` set (take i xs @ drop (Suc i) xs)"
proof -
  from assms(2) have "xs = take i xs @ xs ! i # drop (Suc i) xs"
    by (rule id_take_nth_drop)
  then have "distinct (map f (take i xs @ xs ! i # drop (Suc i) xs))"
    using assms(1) by simp
  then show "distinct (map f (take i xs @ drop (Suc i) xs))"
    and "f (xs ! i) \<notin> f ` set (take i xs @ drop (Suc i) xs)"
    by auto
qed

lemma scheduled_pop_pending:
  assumes "i < length (pending s)"
  shows "set (scheduled s) = insert (at_taskInQueue (pending s ! i))
           (set (scheduled (s\<lparr>pending := take i (pending s) @ drop (Suc i) (pending s)\<rparr>)))"
    and "distinct (scheduled s) \<longleftrightarrow>
           at_taskInQueue (pending s ! i) \<notin>
             set (scheduled (s\<lparr>pending := take i (pending s) @ drop (Suc i) (pending s)\<rparr>)) \<and>
           distinct (scheduled (s\<lparr>pending := take i (pending s) @ drop (Suc i) (pending s)\<rparr>))"
proof -
  let ?p = "take i (pending s) @ drop (Suc i) (pending s)"
  have split: "pending s = take i (pending s) @ pending s ! i # drop (Suc i) (pending s)"
    using assms by (rule id_take_nth_drop)
  have "scheduled s = map cl_taskInQueue (immediates s) @
          map at_taskInQueue (take i (pending s) @ pending s ! i # drop (Suc i) (pending s))"
    using split by (simp add: scheduled_def)
  moreover have "scheduled (s\<lparr>pending := ?p\<rparr>) =
      map cl_taskInQueue (immediates s) @ map at_taskInQueue ?p"
    by (simp add: scheduled_def)
  ultimately show "set (scheduled s) = insert (at_taskInQueue (pending s ! i))
           (set (scheduled (s\<lparr>pending := ?p\<rparr>)))"
    and "distinct (scheduled s) \<longleftrightarrow>
           at_taskInQueue (pending s ! i) \<notin> set (scheduled (s\<lparr>pending := ?p\<rparr>)) \<and>
           distinct (scheduled (s\<lparr>pending := ?p\<rparr>))"
    by auto
qed

lemma invariant_handleError:
  assumes "invariant s" "t < length (taskObjects s)" "t \<notin> set (scheduled s)"
  shows "invariant (handleError w t e s)"
  using assms
  by (auto simp: invariant_iff scheduled_handleError_set scheduled_handleError_distinct)

lemma invariant_thenCallback:
  assumes "invariant s" "t \<notin> set (scheduled s)"
  shows "invariant (thenCallback t s)"
proof -
  have "scheduled (thenCallback t s) = scheduled s"
    by (simp add: scheduled_def)
  with assms show ?thesis
    by (auto simp: invariant_iff)
qed

lemma invariant_immediateCallback:
  assumes "invariant s" "cl_taskInQueue cl < length (taskObjects s)"
    "cl_taskInQueue cl \<notin> set (scheduled s)"
  shows "invariant (immediateCallback w cl s)"
proof (cases "isStopped (cl_taskInQueue cl) s")
  case True
  with assms show ?thesis by (simp add: immediateCallback_stopped)
next
  case False
  let ?t = "cl_taskInQueue cl"
  obtain evs m res where mh: "mapHandlers w ?t (length (dataObjects s)) (cl_key cl) 0
            (cl_executionHandlers cl) (dataObjects s ! cl_data cl) = (evs, m, res)"
    by (cases "mapHandlers w ?t (length (dataObjects s)) (cl_key cl) 0
            (cl_executionHandlers cl) (dataObjects s ! cl_data cl)")
  let ?s4 = "(setStatus ?t Running s)\<lparr>dataObjects := dataObjects s @ [m], trace := trace s @ evs\<rparr>"
  have inv4: "invariant ?s4"
    using assms(1) by (simp add: invariant_iff)
  show ?thesis
  proof (cases res)
    case (Inl e)
    have "invariant (handleError w ?t e ?s4)"
      using inv4 assms(2,3) by (intro invariant_handleError) simp_all
    with Inl show ?thesis
      by (simp add: immediateCallback_running[OF False mh])
  next
    case (Inr ps)
    have "invariant (?s4\<lparr>pending := pending ?s4 @ [\<lparr>at_taskInQueue = ?t, at_promises = ps\<rparr>]\<rparr>)"
      using inv4 assms(2,3) unfolding invariant_iff scheduled_push_pending by simp
    with Inr show ?thesis
      by (simp add: immediateCallback_running[OF False mh])
  qed
qed

lemma invariant_pop_immediate:
  assumes "invariant s" "immediates s = cl # rest"
  shows "invariant (s\<lparr>immediates := rest\<rparr>)"
    and "cl_taskInQueue cl < length (taskObjects s)"
    and "cl_taskInQueue cl \<notin> set (scheduled (s\<lparr>immediates := rest\<rparr>))"
  using assms(1) unfolding invariant_iff scheduled_pop_immediate[OF assms(2)] by simp_all

lemma invariant_pop_pending:
  assumes "invariant s" "i < length (pending s)"
  shows "invariant (s\<lparr>pending := take i (pending s) @ drop (Suc i) (pending s)\<rparr>)"
    and "at_taskInQueue (pending s ! i) < length (taskObjects s)"
    and "at_taskInQueue (pending s ! i) \<notin>
           set (scheduled (s\<lparr>pending := take i (pending s) @ drop (Suc i) (pending s)\<rparr>))"
  using assms(1) unfolding invariant_iff scheduled_pop_pending[OF assms(2)] by simp_all

lemma scheduled_enqueueTask_set:
  "set (scheduled (snd (enqueueTask opts s))) =
     (if executionHandlers s = [] then set (scheduled s)
      else insert (length (taskObjects s)) (set (scheduled s)))"
  "distinct (scheduled (snd (enqueueTask opts s))) \<longleftrightarrow>
     (if executionHandlers s = [] then distinct (scheduled s)
      else length (taskObjects s) \<notin> set (scheduled s) \<and> distinct (scheduled s))"
  by (cases "executionHandlers s = []";
      simp only: scheduled_enqueueTask scheduled_with if_True if_False)+

lemma scheduled_executeCopy_set:
  "set (scheduled (executeCopy t s)) =
     (if executionHandlers s = [] then set (scheduled s)
      else insert (length (taskObjects s)) (set (scheduled s)))"
  "distinct (scheduled (executeCopy t s)) \<longleftrightarrow>
     (if executionHandlers s = [] then distinct (scheduled s)
      else length (taskObjects s) \<notin> set (scheduled s) \<and> distinct (scheduled s))"
  by (cases "executionHandlers s = []";
      simp only: scheduled_executeCopy scheduled_with if_True if_False)+

lemma invariant_enqueueTask:
  assumes "invariant s"
  shows "invariant (snd (enqueueTask opts s))"
  using assms unfolding invariant_iff scheduled_enqueueTask_set
  by (auto simp: nth_append less_Suc_eq)

lemma invariant_executeCopy:
  assumes "invariant s" "status (taskObjects s ! t) \<noteq> Succeded"
  shows "invariant (executeCopy t s)"
  using assms unfolding invariant_iff scheduled_executeCopy_set
  by (auto simp: nth_append less_Suc_eq)

lemma executeCopy_old_objects:
  "u < length (taskObjects s) \<Longrightarrow> taskObjects (executeCopy t s) ! u = taskObjects s ! u"
  by (simp add: nth_append)

lemma invariant_foldl_executeCopy:
  assumes "invariant s"
    and "\<forall>t \<in> set ts. t < length (taskObjects s) \<and> status (taskObjects s ! t) \<noteq> Succeded"
  shows "invariant (foldl (\<lambda>s' t. executeCopy t s') s ts)"
  using assms
proof (induction ts arbitrary: s)
  case Nil
  then show ?case by simp
next
  case (Cons t ts)
  have "invariant (executeCopy t s)"
    using Cons.prems by (intro invariant_executeCopy) simp_all
  moreover have "\<forall>u \<in> set ts. u < length (taskObjects (executeCopy t s)) \<and>
      status (taskObjects (executeCopy t s) ! u) \<noteq> Succeded"
    using Cons.prems(2) by (auto simp: nth_append)
  ultimately show ?case
    using Cons.IH by simp
qed

lemma invariant_enqueueRemainingTasks:
  assumes "invariant s"
  shows "invariant (snd (enqueueRemainingTasks s))"
  using assms
  by (auto simp: enqueueRemainingTasks_def Let_def invariant_iff
           intro!: invariant_foldl_executeCopy[unfolded invariant_iff])

lemma invariant_foldl_setStatus:
  "invariant s \<Longrightarrow> st \<noteq> Succeded \<Longrightarrow> invariant (foldl (\<lambda>s' t. setStatus t st s') s ts)"
  by (induction ts arbitrary: s) (simp_all add: invariant_setStatus)

lemma invariant_stopAllEnqueuedTasks:
  "invariant s \<Longrightarrow> invariant (stopAllEnqueuedTasks s)"
  by (simp add: stopAllEnqueuedTasks_def Let_def invariant_foldl_setStatus)

lemma invariant_runImmediate:
  assumes "invariant s"
  shows "invariant (runImmediate w s)"
proof (cases "immediates s")
  case Nil
  with assms show ?thesis by (simp add: runImmediate_def)
next
  case (Cons cl rest)
  from invariant_pop_immediate[OF assms Cons] show ?thesis
    by (simp add: runImmediate_def Cons invariant_immediateCallback)
qed

lemma invariant_settle:
  assumes "invariant s"
  shows "invariant (settle w i j s)"
proof -
  let ?t = "at_taskInQueue (pending s ! i)"
  let ?s0 = "s\<lparr>pending := take i (pending s) @ drop (Suc i) (pending s)\<rparr>"
  consider "settle w i j s = s"
    | "i < length (pending s)" "settle w i j s = thenCallback ?t ?s0"
    | e where "i < length (pending s)" "settle w i j s = handleError w ?t e ?s0"
    using settle_cases[of w i j s] by blast
  then show ?thesis
  proof cases
    case 1
    with assms show ?thesis by simp
  next
    case 2
    from invariant_pop_pending[OF assms 2(1)] show ?thesis
      by (simp add: 2(2) invariant_thenCallback)
  next
    case 3
    from invariant_pop_pending[OF assms 3(1)] show ?thesis
      by (simp add: 3(2) invariant_handleError)
  qed
qed

lemma invariant_step:
  assumes "invariant s"
  shows "invariant (step a s)"
proof (cases a)
  case (NewObject m)
  with assms show ?thesis by (simp add: newObject_def invariant_iff)
next
  case (On event handler)
  with assms show ?thesis
    by (cases handler) (simp_all add: on_def invariant_iff)
next
  case (EnqueueTask opts)
  with assms show ?thesis by (simp add: invariant_enqueueTask)
next
  case EnqueueRemainingTasks
  with assms show ?thesis by (simp add: invariant_enqueueRemainingTasks)
next
  case StopAllEnqueuedTasks
  with assms show ?thesis by (simp add: invariant_stopAllEnqueuedTasks)
next
  case (RunImmediate w)
  with assms show ?thesis by (simp add: invariant_runImmediate)
next
  case (Settle w i j)
  with assms show ?thesis by (simp add: invariant_settle)
qed

lemma run_Nil [simp]: "run [] s = s"
  by (simp add: run_def)

lemma run_Cons [simp]: "run (a # acts) s = run acts (step a s)"
  by (simp add: run_def)

lemma run_append [simp]: "run (acts @ acts') s = run acts' (run acts s)"
  by (simp add: run_def)

lemma invariant_run:
  "invariant s \<Longrightarrow> invariant (run acts s)"
  by (induction acts arbitrary: s) (simp_all add: invariant_step)

lemma invariant_reachable: "invariant (run acts new_MemoryQueueStorage)"
  by (simp add: invariant_run invariant_new)

subsection \<open>What a turn leaves alone\<close>

lemma immediateCallback_length [simp]:
  "length (taskObjects (immediateCallback w cl s)) = length (taskObjects s)"
proof (cases "isStopped (cl_taskInQueue cl) s")
  case True
  then show ?thesis by (simp add: immediateCallback_stopped)
next
  case False
  obtain evs m res where mh: "mapHandlers w (cl_taskInQueue cl) (length (dataObjects s)) (cl_key cl) 0
            (cl_executionHandlers cl) (dataObjects s ! cl_data cl) = (evs, m, res)"
    by (cases "mapHandlers w (cl_taskInQueue cl) (length (dataObjects s)) (cl_key cl) 0
            (cl_executionHandlers cl) (dataObjects s ! cl_data cl)")
  show ?thesis
    by (simp add: immediateCallback_running[OF False mh] Let_def split: sum.split)
qed

lemma immediateCallback_tasksInQueue [simp]:
  "tasksInQueue (immediateCallback w cl s) = tasksInQueue s"
proof (cases "isStopped (cl_taskInQueue cl) s")
  case True
  then show ?thesis by (simp add: immediateCallback_stopped)
next
  case False
  obtain evs m res where mh: "mapHandlers w (cl_taskInQueue cl) (length (dataObjects s)) (cl_key cl) 0
            (cl_executionHandlers cl) (dataObjects s ! cl_data cl) = (evs, m, res)"
    by (cases "mapHandlers w (cl_taskInQueue cl) (length (dataObjects s)) (cl_key cl) 0
            (cl_executionHandlers cl) (dataObjects s ! cl_data cl)")
  show ?thesis
    by (simp add: immediateCallback_running[OF False mh] Let_def split: sum.split)
qed

lemma immediateCallback_status_other:
  "u \<noteq> cl_taskInQueue cl \<Longrightarrow>
     status (taskObjects (immediateCallback w cl s) ! u) = status (taskObjects s ! u)"
proof (cases "isStopped (cl_taskInQueue cl) s")
  case True
  then show ?thesis by (simp add: immediateCallback_stopped)
next
  case False
  assume u: "u \<noteq> cl_taskInQueue cl"
  obtain evs m res where mh: "mapHandlers w (cl_taskInQueue cl) (length (dataObjects s)) (cl_key cl) 0
            (cl_executionHandlers cl) (dataObjects s ! cl_data cl) = (evs, m, res)"
    by (cases "mapHandlers w (cl_taskInQueue cl) (length (dataObjects s)) (cl_key cl) 0
            (cl_executionHandlers cl) (dataObjects s ! cl_data cl)")
  show ?thesis
    using u by (simp add: immediateCallback_running[OF False mh] Let_def split: sum.split)
qed

lemma immediateCallback_scheduled:
  "set (scheduled (immediateCallback w cl s)) \<subseteq> insert (cl_taskInQueue cl) (set (scheduled s))"
proof (cases "isStopped (cl_taskInQueue cl) s")
  case True
  then show ?thesis by (auto simp: immediateCallback_stopped)
next
  case False
  obtain evs m res where mh: "mapHandlers w (cl_taskInQueue cl) (length (dataObjects s)) (cl_key cl) 0
            (cl_executionHandlers cl) (dataObjects s ! cl_data cl) = (evs, m, res)"
    by (cases "mapHandlers w (cl_taskInQueue cl) (length (dataObjects s)) (cl_key cl) 0
            (cl_executionHandlers cl) (dataObjects s ! cl_data cl)")
  show ?thesis
  proof (cases res)
    case (Inl e)
    then show ?thesis
      by (simp add: immediateCallback_running[OF False mh] scheduled_handleError_set)
         (auto simp: scheduled_def)
  next
    case (Inr ps)
    let ?s4 = "(setStatus (cl_taskInQueue cl) Running s)\<lparr>dataObjects := dataObjects s @ [m], trace := trace s @ evs\<rparr>"
    have "immediateCallback w cl s =
        ?s4\<lparr>pending := pending ?s4 @ [\<lparr>at_taskInQueue = cl_taskInQueue cl, at_promises = ps\<rparr>]\<rparr>"
      using Inr by (simp add: immediateCallback_running[OF False mh])
    then show ?thesis
      by (simp only: scheduled_push_pending) simp
  qed
qed

lemma immediateCallback_trace_other:
  "u \<noteq> cl_taskInQueue cl \<Longrightarrow>
     filter (isExecuteOf u) (trace (immediateCallback w cl s)) = filter (isExecuteOf u) (trace s)"
proof (cases "isStopped (cl_taskInQueue cl) s")
  case True
  then show ?thesis by (simp add: immediateCallback_stopped)
next
  case False
  assume u: "u \<noteq> cl_taskInQueue cl"
  obtain evs m res where mh: "mapHandlers w (cl_taskInQueue cl) (length (dataObjects s)) (cl_key cl) 0
            (cl_executionHandlers cl) (dataObjects s ! cl_data cl) = (evs, m, res)"
    by (cases "mapHandlers w (cl_taskInQueue cl) (length (dataObjects s)) (cl_key cl) 0
            (cl_executionHandlers cl) (dataObjects s ! cl_data cl)")
  have "filter (isExecuteOf u) evs = []"
    using mapHandlers_other_record[OF u, of w _ _ 0] mh
    by (metis fst_conv)
  then show ?thesis
    by (simp add: immediateCallback_running[OF False mh] Let_def split: sum.split)
qed

lemma foldl_executeCopy_frame [simp]:
  "errorHandlers (foldl (\<lambda>s' t. executeCopy t s') s ts) = errorHandlers s"
  "executionHandlers (foldl (\<lambda>s' t. executeCopy t s') s ts) = executionHandlers s"
  "nextId (foldl (\<lambda>s' t. executeCopy t s') s ts) = nextId s"
  "tasksInQueue (foldl (\<lambda>s' t. executeCopy t s') s ts) = tasksInQueue s"
  "dataObjects (foldl (\<lambda>s' t. executeCopy t s') s ts) = dataObjects s"
  "pending (foldl (\<lambda>s' t. executeCopy t s') s ts) = pending s"
  "trace (foldl (\<lambda>s' t. executeCopy t s') s ts) = trace s"
  "length (taskObjects (foldl (\<lambda>s' t. executeCopy t s') s ts)) = length (taskObjects s) + length ts"
  by (induction ts arbitrary: s; simp)+

lemma foldl_executeCopy_old_objects:
  "u < length (taskObjects s) \<Longrightarrow>
     taskObjects (foldl (\<lambda>s' t. executeCopy t s') s ts) ! u = taskObjects s ! u"
  by (induction ts arbitrary: s) (simp_all add: nth_append)

lemma foldl_executeCopy_scheduled:
  "set (scheduled (foldl (\<lambda>s' t. executeCopy t s') s ts)) \<subseteq>
     set (scheduled s) \<union> {n. length (taskObjects s) \<le> n}"
proof (induction ts arbitrary: s)
  case Nil
  then show ?case by simp
next
  case (Cons t ts)
  have "set (scheduled (foldl (\<lambda>s' t. executeCopy t s') (executeCopy t s) ts)) \<subseteq>
     set (scheduled (executeCopy t s)) \<union> {n. length (taskObjects (executeCopy t s)) \<le> n}"
    by (rule Cons.IH)
  also have "\<dots> \<subseteq> set (scheduled s) \<union> {n. length (taskObjects s) \<le> n}"
    by (auto simp: scheduled_executeCopy_set split: if_splits)
  finally show ?case by simp
qed

lemma foldl_setStatus_frame [simp]:
  "errorHandlers (foldl (\<lambda>s' t. setStatus t st s') s ts) = errorHandlers s"
  "executionHandlers (foldl (\<lambda>s' t. setStatus t st s') s ts) = executionHandlers s"
  "nextId (foldl (\<lambda>s' t. setStatus t st s') s ts) = nextId s"
  "tasksInQueue (foldl (\<lambda>s' t. setStatus t st s') s ts) = tasksInQueue s"
  "dataObjects (foldl (\<lambda>s' t. setStatus t st s') s ts) = dataObjects s"
  "immediates (foldl (\<lambda>s' t. setStatus t st s') s ts) = immediates s"
  "pending (foldl (\<lambda>s' t. setStatus t st s') s ts) = pending s"
  "trace (foldl (\<lambda>s' t. setStatus t st s') s ts) = trace s"
  "length (taskObjects (foldl (\<lambda>s' t. setStatus t st s') s ts)) = length (taskObjects s)"
  by (induction ts arbitrary: s; simp)+

lemma foldl_setStatus_status:
  "status (taskObjects (foldl (\<lambda>s' t. setStatus t st s') s ts) ! u) =
     (if u \<in> set ts \<and> u < length (taskObjects s) then st else status (taskObjects s ! u))"
  by (induction ts arbitrary: s) auto

lemma foldl_setStatus_options [simp]:
  "options (taskObjects (foldl (\<lambda>s' t. setStatus t st s') s ts) ! u) = options (taskObjects s ! u)"
  by (induction ts arbitrary: s) auto

lemma foldl_setStatus_id [simp]:
  "id' (taskObjects (foldl (\<lambda>s' t. setStatus t st s') s ts) ! u) = id' (taskObjects s ! u)"
  by (induction ts arbitrary: s) auto

lemma stopAllEnqueuedTasks_frame [simp]:
  "errorHandlers (stopAllEnqueuedTasks s) = errorHandlers s"
  "executionHandlers (stopAllEnqueuedTasks s) = executionHandlers s"
  "nextId (stopAllEnqueuedTasks s) = nextId s"
  "tasksInQueue (stopAllEnqueuedTasks s) = tasksInQueue s"
  "dataObjects (stopAllEnqueuedTasks s) = dataObjects s"
  "immediates (stopAllEnqueuedTasks s) = immediates s"
  "pending (stopAllEnqueuedTasks s) = pending s"
  "trace (stopAllEnqueuedTasks s) = trace s"
  "length (taskObjects (stopAllEnqueuedTasks s)) = length (taskObjects s)"
  by (simp_all add: stopAllEnqueuedTasks_def Let_def)

lemma stopAllEnqueuedTasks_status:
  "status (taskObjects (stopAllEnqueuedTasks s) ! u) =
     (if u \<in> set (tasksInQueue s) \<and> u < length (taskObjects s) \<and>
         status (taskObjects s ! u) \<in> {Queued, Running, Failed}
      then Stopped else status (taskObjects s ! u))"
  by (auto simp: stopAllEnqueuedTasks_def Let_def foldl_setStatus_status)

lemma scheduled_stopAllEnqueuedTasks [simp]:
  "scheduled (stopAllEnqueuedTasks s) = scheduled s"
  by (simp add: scheduled_def)

lemma enqueueRemainingTasks_frame [simp]:
  "errorHandlers (snd (enqueueRemainingTasks s)) = errorHandlers s"
  "executionHandlers (snd (enqueueRemainingTasks s)) = executionHandlers s"
  "nextId (snd (enqueueRemainingTasks s)) = nextId s"
  "tasksInQueue (snd (enqueueRemainingTasks s)) = tasksInQueue s"
  "dataObjects (snd (enqueueRemainingTasks s)) = dataObjects s"
  "pending (snd (enqueueRemainingTasks s)) = pending s"
  "trace (snd (enqueueRemainingTasks s)) = trace s"
  "fst (enqueueRemainingTasks s) = []"
  by (simp_all add: enqueueRemainingTasks_def Let_def)

lemma enqueueRemainingTasks_old_objects:
  "u < length (taskObjects s) \<Longrightarrow>
     taskObjects (snd (enqueueRemainingTasks s)) ! u = taskObjects s ! u"
  by (simp add: enqueueRemainingTasks_def Let_def foldl_executeCopy_old_objects)

lemma enqueueRemainingTasks_length:
  "length (taskObjects s) \<le> length (taskObjects (snd (enqueueRemainingTasks s)))"
  by (simp add: enqueueRemainingTasks_def Let_def)

lemma enqueueRemainingTasks_scheduled:
  "set (scheduled (snd (enqueueRemainingTasks s))) \<subseteq>
     set (scheduled s) \<union> {n. length (taskObjects s) \<le> n}"
  by (simp add: enqueueRemainingTasks_def Let_def foldl_executeCopy_scheduled)

lemma settle_length [simp]:
  "length (taskObjects (settle w i j s)) = length (taskObjects s)"
  using settle_cases[of w i j s] by auto

lemma settle_trace:
  "filter (isExecuteOf u) (trace (settle w i j s)) = filter (isExecuteOf u) (trace s)"
  using settle_cases[of w i j s] by auto

lemma settle_status_other:
  "target (Settle w i j) s \<noteq> Some u \<Longrightarrow>
     status (taskObjects (settle w i j s) ! u) = status (taskObjects s ! u)"
  using settle_cases[of w i j s] by auto

lemma settle_scheduled:
  "set (scheduled (settle w i j s)) \<subseteq> set (scheduled s)"
proof -
  let ?t = "at_taskInQueue (pending s ! i)"
  let ?s0 = "s\<lparr>pending := take i (pending s) @ drop (Suc i) (pending s)\<rparr>"
  consider "settle w i j s = s"
    | "i < length (pending s)" "settle w i j s = thenCallback ?t ?s0"
    | e where "i < length (pending s)" "settle w i j s = handleError w ?t e ?s0"
    using settle_cases[of w i j s] by blast
  then show ?thesis
  proof cases
    case 1
    then show ?thesis by simp
  next
    case 2
    have "scheduled (thenCallback ?t ?s0) = scheduled ?s0"
      by (simp add: scheduled_def)
    with 2 show ?thesis
      by (auto simp: scheduled_pop_pending(1)[OF 2(1)])
  next
    case 3
    then show ?thesis
      by (auto simp: scheduled_pop_pending(1)[OF 3(1)] scheduled_handleError_set split: if_splits)
  qed
qed

lemma settle_tasksInQueue:
  "u \<in> set (tasksInQueue s) \<Longrightarrow>
     u \<in> set (tasksInQueue (settle w i j s)) \<or> status (taskObjects (settle w i j s) ! u) = Succeded"
  using settle_cases[of w i j s] by auto

lemma settle_tasksInQueue_subset:
  "set (tasksInQueue (settle w i j s)) \<subseteq> set (tasksInQueue s)"
  using settle_cases[of w i j s] by auto

subsection \<open>What one turn of the program can change\<close>

lemma isStopped_update [simp]:
  "isStopped t (s\<lparr>immediates := im\<rparr>) = isStopped t s"
  "isStopped t (s\<lparr>pending := pe\<rparr>) = isStopped t s"
  by (simp_all add: isStopped_def)

lemma step_length: "length (taskObjects s) \<le> length (taskObjects (step a s))"
proof (cases a)
  case (On event handler)
  then show ?thesis by (cases handler) (simp_all add: on_def)
next
  case (RunImmediate w)
  then show ?thesis by (cases "immediates s") (simp_all add: runImmediate_def)
qed (simp_all add: newObject_def enqueueRemainingTasks_length)

lemma step_status_other:
  assumes "u < length (taskObjects s)" "target a s \<noteq> Some u" "a \<noteq> StopAllEnqueuedTasks"
  shows "status (taskObjects (step a s) ! u) = status (taskObjects s ! u)"
proof (cases a)
  case (NewObject m)
  then show ?thesis by (simp add: newObject_def)
next
  case (On event handler)
  then show ?thesis by (cases handler) (simp_all add: on_def)
next
  case (EnqueueTask opts)
  with assms(1) show ?thesis by (simp add: nth_append)
next
  case EnqueueRemainingTasks
  with assms(1) show ?thesis by (simp add: enqueueRemainingTasks_old_objects)
next
  case StopAllEnqueuedTasks
  with assms(3) show ?thesis by simp
next
  case (RunImmediate w)
  show ?thesis
  proof (cases "immediates s")
    case Nil
    with RunImmediate show ?thesis by (simp add: runImmediate_def)
  next
    case (Cons cl rest)
    with RunImmediate assms(2) have "u \<noteq> cl_taskInQueue cl" by auto
    with RunImmediate Cons show ?thesis
      by (simp add: runImmediate_def immediateCallback_status_other)
  qed
next
  case (Settle w i j)
  with assms(2) show ?thesis by (simp add: settle_status_other)
qed

lemma step_scheduled:
  "set (scheduled (step a s)) \<subseteq> set (scheduled s) \<union> {n. length (taskObjects s) \<le> n}"
proof (cases a)
  case (NewObject m)
  then show ?thesis by (simp add: newObject_def)
next
  case (On event handler)
  then show ?thesis by (cases handler) (simp_all add: on_def)
next
  case (EnqueueTask opts)
  then show ?thesis by (auto simp: scheduled_enqueueTask_set split: if_splits)
next
  case EnqueueRemainingTasks
  then show ?thesis using enqueueRemainingTasks_scheduled[of s] by simp
next
  case StopAllEnqueuedTasks
  then show ?thesis by simp
next
  case (RunImmediate w)
  show ?thesis
  proof (cases "immediates s")
    case Nil
    with RunImmediate show ?thesis by (simp add: runImmediate_def)
  next
    case (Cons cl rest)
    have "set (scheduled (immediateCallback w cl (s\<lparr>immediates := rest\<rparr>))) \<subseteq>
        insert (cl_taskInQueue cl) (set (scheduled (s\<lparr>immediates := rest\<rparr>)))"
      by (rule immediateCallback_scheduled)
    also have "\<dots> = set (scheduled s)"
      by (simp add: scheduled_pop_immediate[OF Cons])
    finally show ?thesis
      using RunImmediate Cons by (auto simp: runImmediate_def)
  qed
next
  case (Settle w i j)
  then show ?thesis using settle_scheduled[of w i j s] by auto
qed

lemma target_scheduled: "target a s = Some u \<Longrightarrow> u \<in> set (scheduled s)"
  by (cases a) (auto simp: scheduled_def split: list.splits if_splits)

lemma step_trace_other:
  assumes "target a s \<noteq> Some u \<or> isStopped u s"
  shows "filter (isExecuteOf u) (trace (step a s)) = filter (isExecuteOf u) (trace s)"
proof (cases a)
  case (NewObject m)
  then show ?thesis by (simp add: newObject_def)
next
  case (On event handler)
  then show ?thesis by (cases handler) (simp_all add: on_def)
next
  case (RunImmediate w)
  show ?thesis
  proof (cases "immediates s")
    case Nil
    with RunImmediate show ?thesis by (simp add: runImmediate_def)
  next
    case (Cons cl rest)
    show ?thesis
    proof (cases "u = cl_taskInQueue cl")
      case True
      with assms RunImmediate Cons have "isStopped (cl_taskInQueue cl) (s\<lparr>immediates := rest\<rparr>)"
        by simp
      then show ?thesis
        using RunImmediate Cons by (simp add: runImmediate_def immediateCallback_stopped)
    next
      case False
      then show ?thesis
        using RunImmediate Cons by (simp add: runImmediate_def immediateCallback_trace_other)
    qed
  qed
qed (simp_all add: settle_trace)

lemma step_target_stopped:
  assumes "invariant s" "target a s = Some u" "isStopped u s"
  shows "step a s = s \<or> u \<notin> set (scheduled (step a s))"
proof (cases a)
  case (RunImmediate w)
  with assms(2) obtain cl rest where im: "immediates s = cl # rest" and u: "u = cl_taskInQueue cl"
    by (auto split: list.splits)
  from invariant_pop_immediate(3)[OF assms(1) im] assms(3) show ?thesis
    by (simp add: RunImmediate runImmediate_def im u immediateCallback_stopped)
next
  case (Settle w i j)
  with assms(2) have i: "i < length (pending s)" and u: "u = at_taskInQueue (pending s ! i)"
    by (auto split: if_splits)
  let ?s0 = "s\<lparr>pending := take i (pending s) @ drop (Suc i) (pending s)\<rparr>"
  have notin: "u \<notin> set (scheduled ?s0)"
    using invariant_pop_pending(3)[OF assms(1) i] u by simp
  have stopped: "isStopped u ?s0"
    using assms(3) by simp
  have then_sched: "scheduled (thenCallback u ?s0) = scheduled ?s0"
    by (simp add: scheduled_def)
  from settle_cases[of w i j s] show ?thesis
    using notin stopped then_sched assms(2) Settle u
    by (auto simp: scheduled_handleError_set dest: target_scheduled)
qed (use assms(2) in simp_all)

subsection \<open>Stopped records\<close>

lemma halted_step:
  assumes "invariant s" "halted u s"
  shows "halted u (step a s)"
    and "filter (isExecuteOf u) (trace (step a s)) = filter (isExecuteOf u) (trace s)"
proof -
  from assms(2) have len: "u < length (taskObjects s)"
    and dis: "isStopped u s \<or> u \<notin> set (scheduled s)"
    by (simp_all add: halted_def)
  have len': "u < length (taskObjects (step a s))"
    using len step_length[of s a] by simp
  show "filter (isExecuteOf u) (trace (step a s)) = filter (isExecuteOf u) (trace s)"
    using dis target_scheduled[of a s u] by (intro step_trace_other) auto
  show "halted u (step a s)"
  proof (cases "target a s = Some u")
    case True
    with dis have "isStopped u s"
      by (auto dest: target_scheduled)
    from step_target_stopped[OF assms(1) True this] len' assms(2) show ?thesis
      by (auto simp: halted_def)
  next
    case False
    show ?thesis
    proof (cases "a = StopAllEnqueuedTasks")
      case True
      with dis len show ?thesis
        by (auto simp: halted_def isStopped_def stopAllEnqueuedTasks_status)
    next
      case notStop: False
      have same: "isStopped u (step a s) = isStopped u s"
        using step_status_other[OF len False notStop] by (simp add: isStopped_def)
      have "u \<notin> set (scheduled s) \<Longrightarrow> u \<notin> set (scheduled (step a s))"
        using step_scheduled[of a s] len by auto
      with dis same len' show ?thesis
        by (auto simp: halted_def)
    qed
  qed
qed

lemma halted_run:
  assumes "invariant s" "halted u s"
  shows "halted u (run acts s) \<and>
         filter (isExecuteOf u) (trace (run acts s)) = filter (isExecuteOf u) (trace s)"
  using assms
proof (induction acts arbitrary: s)
  case Nil
  then show ?case by simp
next
  case (Cons a acts)
  from Cons.IH[OF invariant_step[OF Cons.prems(1)] halted_step(1)[OF Cons.prems]]
    halted_step(2)[OF Cons.prems]
  show ?case by simp
qed

lemma halted_stopAllEnqueuedTasks:
  assumes "invariant s" "t \<in> set (tasksInQueue s)"
  shows "halted t (stopAllEnqueuedTasks s)"
proof -
  from assms have len: "t < length (taskObjects s)"
    by (simp add: invariant_iff)
  have "status (taskObjects s ! t) = Succeded \<Longrightarrow> t \<notin> set (scheduled s)"
    using assms(1) by (auto simp: invariant_iff)
  then show ?thesis
    using len assms(2)
    by (cases "status (taskObjects s ! t)")
       (auto simp: halted_def isStopped_def stopAllEnqueuedTasks_status)
qed

text \<open>
  The stop is final for the records of the backing list. Let \<open>t\<close> be such a record in a
  state the program has reached. \<open>stopAllEnqueuedTasks\<close> leaves it \<open>Stopped\<close> unless it
  had succeeded; from then on, whatever the program does, no execution handler is called
  for the object \<open>t\<close> again. The two mechanisms: the callback of \<^verbatim>\<open>setImmediate\<close>
  returns the state unchanged when the record is stopped, and \<open>handleError\<close> running for
  a stopped record schedules nothing.
\<close>

lemma stored_record_stays_stopped:
  fixes pre post :: "('w, 'v, 'x) action list" and \<sigma> :: "('w, 'v, 'x) MemoryQueueStorage"
  assumes "t \<in> set (tasksInQueue (run pre new_MemoryQueueStorage))"
  shows "let s = run pre new_MemoryQueueStorage; s' = stopAllEnqueuedTasks s in
     (status (taskObjects s ! t) \<noteq> Succeded \<longrightarrow> status (taskObjects s' ! t) = Stopped) \<and>
     filter (isExecuteOf t) (trace (run post s')) = filter (isExecuteOf t) (trace s) \<and>
     (isStopped (cl_taskInQueue cl) \<sigma> \<longrightarrow> immediateCallback w cl \<sigma> = \<sigma>) \<and>
     (isStopped t \<sigma> \<longrightarrow> immediates (handleError w t e \<sigma>) = immediates \<sigma>)"
proof -
  let ?s = "run pre new_MemoryQueueStorage :: ('w, 'v, 'x) MemoryQueueStorage"
  have inv: "invariant ?s"
    by (rule invariant_reachable)
  then have len: "t < length (taskObjects ?s)"
    using assms by (simp add: invariant_iff)
  have a: "status (taskObjects ?s ! t) \<noteq> Succeded \<longrightarrow>
      status (taskObjects (stopAllEnqueuedTasks ?s) ! t) = Stopped"
    using assms len
    by (cases "status (taskObjects ?s ! t)") (simp_all add: stopAllEnqueuedTasks_status)
  have "filter (isExecuteOf t) (trace (run post (stopAllEnqueuedTasks ?s))) =
      filter (isExecuteOf t) (trace (stopAllEnqueuedTasks ?s))"
    using halted_run[OF invariant_stopAllEnqueuedTasks[OF inv]
        halted_stopAllEnqueuedTasks[OF inv assms]] by simp
  then have b: "filter (isExecuteOf t) (trace (run post (stopAllEnqueuedTasks ?s))) =
      filter (isExecuteOf t) (trace ?s)"
    by simp
  have c: "isStopped (cl_taskInQueue cl) \<sigma> \<longrightarrow> immediateCallback w cl \<sigma> = \<sigma>"
    by (simp add: immediateCallback_stopped)
  have d: "isStopped t \<sigma> \<longrightarrow> immediates (handleError w t e \<sigma>) = immediates \<sigma>"
    by (simp add: handleError_immediates)
  from a b c d show ?thesis
    by (simp add: Let_def)
qed

text \<open>
  C1 does not hold of the code. A handler that always rejects is subscribed, the task
  \<^verbatim>\<open>t1\<close> is submitted, and \<open>enqueueRemainingTasks\<close> is called before the callback of the
  submission has run: the record is still \<open>Queued\<close>, so the call schedules an attempt, for
  an object it creates with the identifier, the options and the status of the record
  (reference 1; the record is reference 0). That object is not in the backing list.
  \<open>stopAllEnqueuedTasks\<close> makes the record \<open>Stopped\<close> and does not reach the object. In
  the turns that follow the callback of the record returns at once, and the handler is
  called for the task \<^verbatim>\<open>t1\<close>, fails and is called again, three times in six turns, with
  the next attempt under way: the stop has not ended the execution of the task.
\<close>

theorem stopAllEnqueuedTasks_misses_the_copy:
  "let s = run [On ''execute'' (Callable (\<lambda>w e. None)
                                  (\<lambda>w m k. ((m, k), Rejects (Thrown (1::nat))))),
                NewObject [''x'' \<mapsto> (1::nat)], EnqueueTask \<lparr>data = 0, key = ''t1''\<rparr>,
                EnqueueRemainingTasks]
               (new_MemoryQueueStorage :: (unit, nat, nat) MemoryQueueStorage);
       s1 = stopAllEnqueuedTasks s;
       s2 = run [RunImmediate (), RunImmediate (), Settle () 0 0, RunImmediate (),
                 Settle () 0 0, RunImmediate ()] s1
   in tasksInQueue s = [0] \<and>
      taskObjects s =
        [\<lparr>id' = ''-9007199254740991'', options = \<lparr>data = 0, key = ''t1''\<rparr>, status = Queued\<rparr>,
         \<lparr>id' = ''-9007199254740991'', options = \<lparr>data = 0, key = ''t1''\<rparr>, status = Queued\<rparr>] \<and>
      map cl_taskInQueue (immediates s) = [0, 1] \<and> trace s = [] \<and>
      tasksInQueue s1 = [0] \<and> map status (taskObjects s1) = [Stopped, Queued] \<and>
      trace s2 = [ExecuteEvent 1 0 1 [''x'' \<mapsto> 1] ''t1'',
                  ExecuteEvent 1 0 2 [''x'' \<mapsto> 1] ''t1'',
                  ExecuteEvent 1 0 3 [''x'' \<mapsto> 1] ''t1''] \<and>
      map status (taskObjects s2) = [Stopped, Running] \<and>
      map at_taskInQueue (pending s2) = [1]"
proof -
  define s :: "(unit, nat, nat) MemoryQueueStorage" where
    "s = run [On ''execute'' (Callable (\<lambda>w e. None)
                                (\<lambda>w m k. ((m, k), Rejects (Thrown (1::nat))))),
              NewObject [''x'' \<mapsto> (1::nat)], EnqueueTask \<lparr>data = 0, key = ''t1''\<rparr>,
              EnqueueRemainingTasks] new_MemoryQueueStorage"
  define s1 where "s1 = stopAllEnqueuedTasks s"
  define s2 where "s2 = run [RunImmediate (), RunImmediate (), Settle () 0 0, RunImmediate (),
                             Settle () 0 0, RunImmediate ()] s1"
  have s_val: "s = \<lparr>errorHandlers = [], executionHandlers = [(\<lambda>w m k. ((m, k), Rejects (Thrown (1::nat))))],
      nextId = increment MIN_SAFE_INTEGER, tasksInQueue = [0],
      taskObjects = [\<lparr>id' = ''-9007199254740991'', options = \<lparr>data = 0, key = ''t1''\<rparr>, status = Queued\<rparr>,
                     \<lparr>id' = ''-9007199254740991'', options = \<lparr>data = 0, key = ''t1''\<rparr>, status = Queued\<rparr>],
      dataObjects = [[''x'' \<mapsto> 1]],
      immediates = [\<lparr>cl_taskInQueue = 0, cl_executionHandlers = [(\<lambda>w m k. ((m, k), Rejects (Thrown (1::nat))))], cl_data = 0, cl_key = ''t1''\<rparr>, \<lparr>cl_taskInQueue = 1, cl_executionHandlers = [(\<lambda>w m k. ((m, k), Rejects (Thrown (1::nat))))], cl_data = 0, cl_key = ''t1''\<rparr>],
      pending = [],
      trace = []\<rparr>"
    by (simp add: s_def eval_defs)
  have s1_val: "s1 = \<lparr>errorHandlers = [], executionHandlers = [(\<lambda>w m k. ((m, k), Rejects (Thrown (1::nat))))],
      nextId = increment MIN_SAFE_INTEGER, tasksInQueue = [0],
      taskObjects = [\<lparr>id' = ''-9007199254740991'', options = \<lparr>data = 0, key = ''t1''\<rparr>, status = Stopped\<rparr>,
                     \<lparr>id' = ''-9007199254740991'', options = \<lparr>data = 0, key = ''t1''\<rparr>, status = Queued\<rparr>],
      dataObjects = [[''x'' \<mapsto> 1]],
      immediates = [\<lparr>cl_taskInQueue = 0, cl_executionHandlers = [(\<lambda>w m k. ((m, k), Rejects (Thrown (1::nat))))], cl_data = 0, cl_key = ''t1''\<rparr>, \<lparr>cl_taskInQueue = 1, cl_executionHandlers = [(\<lambda>w m k. ((m, k), Rejects (Thrown (1::nat))))], cl_data = 0, cl_key = ''t1''\<rparr>],
      pending = [],
      trace = []\<rparr>"
    by (simp add: s1_def s_val eval_defs)
  have first: "run [RunImmediate (), RunImmediate (), Settle () 0 0] s1 = \<lparr>errorHandlers = [], executionHandlers = [(\<lambda>w m k. ((m, k), Rejects (Thrown (1::nat))))],
      nextId = increment MIN_SAFE_INTEGER, tasksInQueue = [0],
      taskObjects = [\<lparr>id' = ''-9007199254740991'', options = \<lparr>data = 0, key = ''t1''\<rparr>, status = Stopped\<rparr>,
                     \<lparr>id' = ''-9007199254740991'', options = \<lparr>data = 0, key = ''t1''\<rparr>, status = Failed\<rparr>],
      dataObjects = [[''x'' \<mapsto> 1], [''x'' \<mapsto> 1]],
      immediates = [\<lparr>cl_taskInQueue = 1, cl_executionHandlers = [(\<lambda>w m k. ((m, k), Rejects (Thrown (1::nat))))], cl_data = 0, cl_key = ''t1''\<rparr>],
      pending = [],
      trace = [ExecuteEvent 1 0 1 [''x'' \<mapsto> 1] ''t1'']\<rparr>"
    by (simp add: s1_val eval_defs)
  have second: "run [RunImmediate (), Settle () 0 0]
      (run [RunImmediate (), RunImmediate (), Settle () 0 0] s1) = \<lparr>errorHandlers = [], executionHandlers = [(\<lambda>w m k. ((m, k), Rejects (Thrown (1::nat))))],
      nextId = increment MIN_SAFE_INTEGER, tasksInQueue = [0],
      taskObjects = [\<lparr>id' = ''-9007199254740991'', options = \<lparr>data = 0, key = ''t1''\<rparr>, status = Stopped\<rparr>,
                     \<lparr>id' = ''-9007199254740991'', options = \<lparr>data = 0, key = ''t1''\<rparr>, status = Failed\<rparr>],
      dataObjects = [[''x'' \<mapsto> 1], [''x'' \<mapsto> 1], [''x'' \<mapsto> 1]],
      immediates = [\<lparr>cl_taskInQueue = 1, cl_executionHandlers = [(\<lambda>w m k. ((m, k), Rejects (Thrown (1::nat))))], cl_data = 0, cl_key = ''t1''\<rparr>],
      pending = [],
      trace = [ExecuteEvent 1 0 1 [''x'' \<mapsto> 1] ''t1'', ExecuteEvent 1 0 2 [''x'' \<mapsto> 1] ''t1'']\<rparr>"
    unfolding first by (simp add: eval_defs)
  have "s2 = run [RunImmediate ()] (run [RunImmediate (), Settle () 0 0]
      (run [RunImmediate (), RunImmediate (), Settle () 0 0] s1))"
    by (simp add: s2_def run_def)
  then have s2_val: "s2 = \<lparr>errorHandlers = [], executionHandlers = [(\<lambda>w m k. ((m, k), Rejects (Thrown (1::nat))))],
      nextId = increment MIN_SAFE_INTEGER, tasksInQueue = [0],
      taskObjects = [\<lparr>id' = ''-9007199254740991'', options = \<lparr>data = 0, key = ''t1''\<rparr>, status = Stopped\<rparr>,
                     \<lparr>id' = ''-9007199254740991'', options = \<lparr>data = 0, key = ''t1''\<rparr>, status = Running\<rparr>],
      dataObjects = [[''x'' \<mapsto> 1], [''x'' \<mapsto> 1], [''x'' \<mapsto> 1], [''x'' \<mapsto> 1]],
      immediates = [],
      pending = [\<lparr>at_taskInQueue = 1, at_promises = [Rejects (Thrown 1)]\<rparr>],
      trace = [ExecuteEvent 1 0 1 [''x'' \<mapsto> 1] ''t1'', ExecuteEvent 1 0 2 [''x'' \<mapsto> 1] ''t1'', ExecuteEvent 1 0 3 [''x'' \<mapsto> 1] ''t1'']\<rparr>"
    unfolding second by (simp add: eval_defs)
  show ?thesis
    unfolding Let_def s_def[symmetric] s1_def[symmetric] s2_def[symmetric]
    by (simp add: s_val s1_val s2_val)
qed

subsection \<open>Records without an attempt\<close>

lemma step_tasksInQueue:
  "u \<in> set (tasksInQueue s) \<Longrightarrow>
     u \<in> set (tasksInQueue (step a s)) \<or> status (taskObjects (step a s) ! u) = Succeded"
proof (cases a)
  case (NewObject m)
  assume "u \<in> set (tasksInQueue s)"
  with NewObject show ?thesis by (simp add: newObject_def)
next
  case (On event handler)
  assume "u \<in> set (tasksInQueue s)"
  with On show ?thesis by (cases handler) (simp_all add: on_def)
next
  case (RunImmediate w)
  assume "u \<in> set (tasksInQueue s)"
  with RunImmediate show ?thesis
    by (cases "immediates s") (simp_all add: runImmediate_def)
next
  case (Settle w i j)
  assume "u \<in> set (tasksInQueue s)"
  with Settle show ?thesis by (simp add: settle_tasksInQueue)
qed simp_all

lemma dormant_step:
  assumes "invariant s" "dormant t s"
  shows "dormant t (step a s)"
    and "filter (isExecuteOf t) (trace (step a s)) = filter (isExecuteOf t) (trace s)"
    and "a \<noteq> StopAllEnqueuedTasks \<Longrightarrow>
           status (taskObjects (step a s) ! t) = status (taskObjects s ! t)"
proof -
  from assms have mem: "t \<in> set (tasksInQueue s)" and ns: "t \<notin> set (scheduled s)"
    and st: "status (taskObjects s ! t) = Queued \<or> status (taskObjects s ! t) = Stopped"
    and len: "t < length (taskObjects s)"
    by (auto simp: dormant_def invariant_iff)
  have tg: "target a s \<noteq> Some t"
    using ns by (auto dest: target_scheduled)
  show tr: "filter (isExecuteOf t) (trace (step a s)) = filter (isExecuteOf t) (trace s)"
    using tg by (simp add: step_trace_other)
  show same: "a \<noteq> StopAllEnqueuedTasks \<Longrightarrow>
           status (taskObjects (step a s) ! t) = status (taskObjects s ! t)"
    using len tg by (rule step_status_other)
  have st': "status (taskObjects (step a s) ! t) = Queued \<or>
             status (taskObjects (step a s) ! t) = Stopped"
  proof (cases "a = StopAllEnqueuedTasks")
    case True
    with st mem len show ?thesis by (auto simp: stopAllEnqueuedTasks_status)
  next
    case False
    with same st show ?thesis by simp
  qed
  have ns': "t \<notin> set (scheduled (step a s))"
    using step_scheduled[of a s] ns len by auto
  have mem': "t \<in> set (tasksInQueue (step a s))"
    using step_tasksInQueue[OF mem, of a] st' by auto
  from mem' ns' st' show "dormant t (step a s)"
    by (simp add: dormant_def)
qed

lemma dormant_run:
  assumes "invariant s" "dormant t s"
  shows "dormant t (run acts s) \<and>
         filter (isExecuteOf t) (trace (run acts s)) = filter (isExecuteOf t) (trace s) \<and>
         (StopAllEnqueuedTasks \<notin> set acts \<longrightarrow>
            status (taskObjects (run acts s) ! t) = status (taskObjects s ! t))"
  using assms
proof (induction acts arbitrary: s)
  case Nil
  then show ?case by simp
next
  case (Cons a acts)
  from Cons.IH[OF invariant_step[OF Cons.prems(1)] dormant_step(1)[OF Cons.prems]]
    dormant_step(2,3)[OF Cons.prems, of a]
  show ?case by auto
qed

lemma trace_fresh_step:
  assumes "invariant s" "length (taskObjects s) \<le> u"
  shows "filter (isExecuteOf u) (trace (step a s)) = filter (isExecuteOf u) (trace s)"
proof -
  have "target a s \<noteq> Some u"
    using assms by (auto dest!: target_scheduled simp: invariant_iff)
  then show ?thesis
    by (simp add: step_trace_other)
qed

lemma trace_fresh_run:
  assumes "invariant s" "\<forall>u \<ge> length (taskObjects s). filter (isExecuteOf u) (trace s) = []"
  shows "\<forall>u \<ge> length (taskObjects (run acts s)). filter (isExecuteOf u) (trace (run acts s)) = []"
  using assms
proof (induction acts arbitrary: s)
  case Nil
  then show ?case by simp
next
  case (Cons a acts)
  have "\<forall>u \<ge> length (taskObjects (step a s)). filter (isExecuteOf u) (trace (step a s)) = []"
  proof (intro allI impI)
    fix u
    assume "length (taskObjects (step a s)) \<le> u"
    then have "length (taskObjects s) \<le> u"
      using step_length[of s a] by simp
    then show "filter (isExecuteOf u) (trace (step a s)) = []"
      using trace_fresh_step[OF Cons.prems(1)] Cons.prems(2) by simp
  qed
  from Cons.IH[OF invariant_step[OF Cons.prems(1)] this] show ?case by simp
qed

lemma trace_fresh_reachable:
  "length (taskObjects (run acts new_MemoryQueueStorage)) \<le> u \<Longrightarrow>
     filter (isExecuteOf u) (trace (run acts new_MemoryQueueStorage)) = []"
  using trace_fresh_run[OF invariant_new, of acts]
  by (simp add: new_MemoryQueueStorage_def)

text \<open>
  C9. In a state the program has reached with no execution handler subscribed,
  \<open>executeTask\<close> changes nothing at all, and \<open>enqueueTask\<close> returns its context having
  appended the record as \<open>Queued\<close> and nothing else: no callback is scheduled and no
  observer is called. Whatever the program does afterwards (handlers may be subscribed
  later), the record stays in the backing list, no execution handler is ever called
  for it, and its status stays \<open>Queued\<close> until \<open>stopAllEnqueuedTasks\<close> makes it \<open>Stopped\<close>.
\<close>

theorem no_observer_no_attempt:
  fixes pre post :: "('w, 'v, 'x) action list"
  assumes "executionHandlers (run pre new_MemoryQueueStorage) = []"
  shows "let s = run pre new_MemoryQueueStorage; t = length (taskObjects s);
             s' = snd (enqueueTask opts s); s'' = run post s' in
     executeTask u s = s \<and>
     enqueueTask opts s =
       (\<lparr>ctx_id = String (nextId s)\<rparr>,
        s\<lparr>nextId := increment (nextId s),
          taskObjects := taskObjects s @
            [\<lparr>id' = String (nextId s), options = opts, status = Queued\<rparr>],
          tasksInQueue := tasksInQueue s @ [t]\<rparr>) \<and>
     t \<in> set (tasksInQueue s'') \<and>
     filter (isExecuteOf t) (trace s'') = [] \<and>
     (status (taskObjects s'' ! t) = Queued \<or> status (taskObjects s'' ! t) = Stopped) \<and>
     (StopAllEnqueuedTasks \<notin> set post \<longrightarrow> status (taskObjects s'' ! t) = Queued)"
proof -
  let ?s = "run pre new_MemoryQueueStorage :: ('w, 'v, 'x) MemoryQueueStorage"
  let ?t = "length (taskObjects ?s)"
  let ?s' = "snd (enqueueTask opts ?s)"
  have inv: "invariant ?s"
    by (rule invariant_reachable)
  have a: "executeTask u ?s = ?s"
    using assms by (simp add: executeTask_def)
  have b: "enqueueTask opts ?s =
       (\<lparr>ctx_id = String (nextId ?s)\<rparr>,
        ?s\<lparr>nextId := increment (nextId ?s),
          taskObjects := taskObjects ?s @
            [\<lparr>id' = String (nextId ?s), options = opts, status = Queued\<rparr>],
          tasksInQueue := tasksInQueue ?s @ [?t]\<rparr>)"
    using assms by (simp add: enqueueTask_def executeTask_def Let_def)
  have fresh: "?t \<notin> set (scheduled ?s)"
    using inv by (auto simp: invariant_iff)
  have dor: "dormant ?t ?s'"
    using assms fresh by (simp add: dormant_def scheduled_enqueueTask_set)
  have tr: "filter (isExecuteOf ?t) (trace ?s') = []"
    using trace_fresh_reachable[of pre ?t] by simp
  have st: "status (taskObjects ?s' ! ?t) = Queued"
    by simp
  from dormant_run[OF invariant_enqueueTask[OF inv] dor, of post] a b tr st
  show ?thesis
    by (simp add: Let_def dormant_def)
qed

text \<open>
  An instance of C9: a submission without handlers; a handler subscribed later and
  \<open>enqueueRemainingTasks\<close> do not bring the stored record to run.
\<close>

theorem no_observer_no_attempt_witness:
  "let s = run [NewObject [''x'' \<mapsto> (1::nat)]] (new_MemoryQueueStorage :: (unit, nat, nat) MemoryQueueStorage);
       s' = snd (enqueueTask \<lparr>data = 0, key = ''t1''\<rparr> s);
       post = [On ''execute'' (Callable (\<lambda>w e. None) (\<lambda>w m k. ((m, k), Fulfils))),
               EnqueueRemainingTasks, RunImmediate (), Settle () 0 0];
       s'' = run post s'
   in executionHandlers s = [] \<and> StopAllEnqueuedTasks \<notin> set post \<and>
      executeTask 0 s = s \<and>
      fst (enqueueTask \<lparr>data = 0, key = ''t1''\<rparr> s) = \<lparr>ctx_id = ''-9007199254740991''\<rparr> \<and>
      tasksInQueue s' = [0] \<and> immediates s' = [] \<and> trace s' = [] \<and>
      0 \<in> set (tasksInQueue s'') \<and> filter (isExecuteOf 0) (trace s'') = [] \<and>
      status (taskObjects s'' ! 0) = Queued \<and>
      trace s'' = [ExecuteEvent 1 0 1 [''x'' \<mapsto> 1] ''t1'']"
proof -
  define pre :: "(unit, nat, nat) action list" where "pre = [NewObject [''x'' \<mapsto> (1::nat)]]"
  define post :: "(unit, nat, nat) action list" where
    "post = [On ''execute'' (Callable (\<lambda>w e. None) (\<lambda>w m k. ((m, k), Fulfils))),
             EnqueueRemainingTasks, RunImmediate (), Settle () 0 0]"
  define s where "s = run pre new_MemoryQueueStorage"
  define s' where "s' = snd (enqueueTask \<lparr>data = 0, key = ''t1''\<rparr> s)"
  define s'' where "s'' = run post s'"
  have s_val: "s = new_MemoryQueueStorage\<lparr>dataObjects := [[''x'' \<mapsto> 1]]\<rparr>"
    by (simp add: s_def pre_def newObject_def new_MemoryQueueStorage_def)
  have h: "executionHandlers s = []" and len: "length (taskObjects s) = 0"
    and id: "String (nextId s) = ''-9007199254740991''"
    by (simp_all add: s_val new_MemoryQueueStorage_def String_MIN_SAFE_INTEGER)
  have np: "StopAllEnqueuedTasks \<notin> set post"
    by (simp add: post_def)
  note inst = no_observer_no_attempt[where pre = pre and u = 0
      and opts = "\<lparr>data = 0, key = ''t1''\<rparr>" and post = post,
      folded s_def, unfolded Let_def, folded s'_def, folded s''_def, OF h]
  have e: "tasksInQueue s' = [0] \<and> immediates s' = [] \<and> trace s' = []"
    using inst by (simp add: s'_def s_val new_MemoryQueueStorage_def)
  have tr: "trace s'' = [ExecuteEvent 1 0 1 [''x'' \<mapsto> 1] ''t1'']"
    by (simp add: s''_def post_def s'_def s_val eval_defs)
  from inst h np e tr id len show ?thesis
    unfolding Let_def pre_def[symmetric] s_def[symmetric] s'_def[symmetric]
      post_def[symmetric] s''_def[symmetric]
    by simp
qed

subsection \<open>Data objects\<close>

lemma mapHandlers_calls:
  "mapHandlers w t c k i hs m = (evs, m', res) \<Longrightarrow> ExecuteEvent t' i' c' m0 k' \<in> set evs \<Longrightarrow>
     t' = t \<and> c' = c \<and> i \<le> i' \<and> (i' = i \<longrightarrow> m0 = m \<and> k' = k)"
proof (induction hs arbitrary: i m k evs m' res)
  case Nil
  then show ?case by simp
next
  case (Cons h hs)
  obtain m1 k1 r where h: "h w m k = ((m1, k1), r)"
    by (cases "h w m k") auto
  obtain evs1 m2 res1 where rest: "mapHandlers w t c k1 (Suc i) hs m1 = (evs1, m2, res1)"
    by (cases "mapHandlers w t c k1 (Suc i) hs m1")
  from Cons.prems h rest
  have "ExecuteEvent t' i' c' m0 k' = ExecuteEvent t i c m k \<or> ExecuteEvent t' i' c' m0 k' \<in> set evs1"
    by (cases r; cases res1) auto
  then show ?case
  proof
    assume "ExecuteEvent t' i' c' m0 k' = ExecuteEvent t i c m k"
    then show ?thesis by simp
  next
    assume "ExecuteEvent t' i' c' m0 k' \<in> set evs1"
    from Cons.IH[OF rest this] show ?thesis by simp
  qed
qed

lemma notify_not_execute:
  "ExecuteEvent t' i' c' m0 k' \<notin> set (notifyErrorHandlers w t e i hs)"
  by (induction hs arbitrary: i) (simp_all split: option.split)

text \<open>What the callback does to the heap of data objects and to the trace.\<close>

lemma immediateCallback_data:
  "length (dataObjects s) \<le> length (dataObjects (immediateCallback w cl s)) \<and>
   (\<forall>d < length (dataObjects s). dataObjects (immediateCallback w cl s) ! d = dataObjects s ! d)"
proof (cases "isStopped (cl_taskInQueue cl) s")
  case True
  then show ?thesis by (simp add: immediateCallback_stopped)
next
  case False
  obtain evs m res where mh: "mapHandlers w (cl_taskInQueue cl) (length (dataObjects s)) (cl_key cl) 0
            (cl_executionHandlers cl) (dataObjects s ! cl_data cl) = (evs, m, res)"
    by (cases "mapHandlers w (cl_taskInQueue cl) (length (dataObjects s)) (cl_key cl) 0
            (cl_executionHandlers cl) (dataObjects s ! cl_data cl)")
  show ?thesis
    by (simp add: immediateCallback_running[OF False mh] Let_def nth_append split: sum.split)
qed

lemma immediateCallback_events:
  "\<exists>new. trace (immediateCallback w cl s) = trace s @ new \<and>
     (\<forall>t i c m k. ExecuteEvent t i c m k \<in> set new \<longrightarrow>
        t = cl_taskInQueue cl \<and> c = length (dataObjects s) \<and>
        (i = 0 \<longrightarrow> m = dataObjects s ! cl_data cl \<and> k = cl_key cl))"
proof (cases "isStopped (cl_taskInQueue cl) s")
  case True
  then show ?thesis by (simp add: immediateCallback_stopped)
next
  case False
  obtain evs m res where mh: "mapHandlers w (cl_taskInQueue cl) (length (dataObjects s)) (cl_key cl) 0
            (cl_executionHandlers cl) (dataObjects s ! cl_data cl) = (evs, m, res)"
    by (cases "mapHandlers w (cl_taskInQueue cl) (length (dataObjects s)) (cl_key cl) 0
            (cl_executionHandlers cl) (dataObjects s ! cl_data cl)")
  have evs: "\<forall>t i c m k. ExecuteEvent t i c m k \<in> set evs \<longrightarrow>
        t = cl_taskInQueue cl \<and> c = length (dataObjects s) \<and>
        (i = 0 \<longrightarrow> m = dataObjects s ! cl_data cl \<and> k = cl_key cl)"
    using mapHandlers_calls[OF mh] by blast
  show ?thesis
  proof (cases res)
    case (Inl e)
    let ?new = "evs @ notifyErrorHandlers w (cl_taskInQueue cl) e 0 (errorHandlers s)"
    have "trace (immediateCallback w cl s) = trace s @ ?new"
      using Inl by (simp add: immediateCallback_running[OF False mh])
    moreover have "\<forall>t i c m k. ExecuteEvent t i c m k \<in> set ?new \<longrightarrow>
        t = cl_taskInQueue cl \<and> c = length (dataObjects s) \<and>
        (i = 0 \<longrightarrow> m = dataObjects s ! cl_data cl \<and> k = cl_key cl)"
      using evs by (simp add: notify_not_execute)
    ultimately show ?thesis by blast
  next
    case (Inr ps)
    have "trace (immediateCallback w cl s) = trace s @ evs"
      using Inr by (simp add: immediateCallback_running[OF False mh])
    with evs show ?thesis by blast
  qed
qed

lemma settle_data [simp]: "dataObjects (settle w i j s) = dataObjects s"
  using settle_cases[of w i j s] by auto

lemma settle_events:
  "\<exists>new. trace (settle w i j s) = trace s @ new \<and>
     (\<forall>t i c m k. ExecuteEvent t i c m k \<notin> set new)"
proof -
  let ?t = "at_taskInQueue (pending s ! i)"
  let ?s0 = "s\<lparr>pending := take i (pending s) @ drop (Suc i) (pending s)\<rparr>"
  consider "settle w i j s = s"
    | "i < length (pending s)" "settle w i j s = thenCallback ?t ?s0"
    | e where "i < length (pending s)" "settle w i j s = handleError w ?t e ?s0"
    using settle_cases[of w i j s] by blast
  then show ?thesis
  proof cases
    case 1
    then show ?thesis by simp
  next
    case 2
    then show ?thesis by simp
  next
    case 3
    then show ?thesis by (simp add: notify_not_execute)
  qed
qed

lemma step_data:
  "length (dataObjects s) \<le> length (dataObjects (step a s)) \<and>
   (\<forall>d < length (dataObjects s). dataObjects (step a s) ! d = dataObjects s ! d)"
proof (cases a)
  case (NewObject m)
  then show ?thesis by (simp add: newObject_def nth_append)
next
  case (On event handler)
  then show ?thesis by (cases handler) (simp_all add: on_def)
next
  case (RunImmediate w)
  show ?thesis
  proof (cases "immediates s")
    case Nil
    with RunImmediate show ?thesis by (simp add: runImmediate_def)
  next
    case (Cons cl rest)
    with RunImmediate immediateCallback_data[of "s\<lparr>immediates := rest\<rparr>" w cl]
    show ?thesis by (simp add: runImmediate_def)
  qed
qed simp_all

lemma step_options:
  "u < length (taskObjects s) \<Longrightarrow>
     options (taskObjects (step a s) ! u) = options (taskObjects s ! u)"
proof (cases a)
  case (NewObject m)
  then show ?thesis by (simp add: newObject_def)
next
  case (On event handler)
  then show ?thesis by (cases handler) (simp_all add: on_def)
next
  case (EnqueueTask opts)
  assume "u < length (taskObjects s)"
  with EnqueueTask show ?thesis by (simp add: nth_append)
next
  case EnqueueRemainingTasks
  assume "u < length (taskObjects s)"
  with EnqueueRemainingTasks show ?thesis by (simp add: enqueueRemainingTasks_old_objects)
next
  case StopAllEnqueuedTasks
  then show ?thesis by (simp add: stopAllEnqueuedTasks_def Let_def)
next
  case (RunImmediate w)
  show ?thesis
  proof (cases "immediates s")
    case Nil
    with RunImmediate show ?thesis by (simp add: runImmediate_def)
  next
    case (Cons cl rest)
    let ?s0 = "s\<lparr>immediates := rest\<rparr>"
    have "options (taskObjects (immediateCallback w cl ?s0) ! u) = options (taskObjects ?s0 ! u)"
    proof (cases "isStopped (cl_taskInQueue cl) ?s0")
      case True
      then show ?thesis by (simp add: immediateCallback_stopped)
    next
      case False
      obtain evs m res where mh: "mapHandlers w (cl_taskInQueue cl) (length (dataObjects ?s0)) (cl_key cl) 0
            (cl_executionHandlers cl) (dataObjects ?s0 ! cl_data cl) = (evs, m, res)"
        by (cases "mapHandlers w (cl_taskInQueue cl) (length (dataObjects ?s0)) (cl_key cl) 0
            (cl_executionHandlers cl) (dataObjects ?s0 ! cl_data cl)")
      show ?thesis
        by (simp add: immediateCallback_running[OF False mh] Let_def split: sum.split)
    qed
    with RunImmediate Cons show ?thesis by (simp add: runImmediate_def)
  qed
next
  case (Settle w i j)
  then show ?thesis using settle_cases[of w i j s] by auto
qed

lemma consistent_iff:
  "consistent s \<longleftrightarrow>
     (\<forall>u < length (taskObjects s). data (options (taskObjects s ! u)) < length (dataObjects s)) \<and>
     (\<forall>cl \<in> set (immediates s). cl_taskInQueue cl < length (taskObjects s) \<and>
        cl_data cl = data (options (taskObjects s ! cl_taskInQueue cl)) \<and>
        cl_key cl = key (options (taskObjects s ! cl_taskInQueue cl)))"
  unfolding consistent_def list_all_length[of _ "taskObjects s"] list_all_iff[of _ "immediates s"]
  by (rule refl)

lemma consistent_new: "consistent new_MemoryQueueStorage"
  by (simp add: consistent_iff new_MemoryQueueStorage_def)

lemma consistent_setStatus: "consistent s \<Longrightarrow> consistent (setStatus t st s)"
  by (simp add: consistent_iff)

lemma consistent_executeTask:
  "consistent s \<Longrightarrow> t < length (taskObjects s) \<Longrightarrow> consistent (executeTask t s)"
  by (auto simp: consistent_iff executeTask_immediates)

lemma consistent_handleError:
  "consistent s \<Longrightarrow> t < length (taskObjects s) \<Longrightarrow> consistent (handleError w t e s)"
  by (auto simp: consistent_iff handleError_immediates)

lemma consistent_thenCallback: "consistent s \<Longrightarrow> consistent (thenCallback t s)"
  by (simp add: consistent_iff)

lemma consistent_immediateCallback:
  assumes "consistent s" "cl_taskInQueue cl < length (taskObjects s)"
  shows "consistent (immediateCallback w cl s)"
proof (cases "isStopped (cl_taskInQueue cl) s")
  case True
  with assms show ?thesis by (simp add: immediateCallback_stopped)
next
  case False
  let ?t = "cl_taskInQueue cl"
  obtain evs m res where mh: "mapHandlers w ?t (length (dataObjects s)) (cl_key cl) 0
            (cl_executionHandlers cl) (dataObjects s ! cl_data cl) = (evs, m, res)"
    by (cases "mapHandlers w ?t (length (dataObjects s)) (cl_key cl) 0
            (cl_executionHandlers cl) (dataObjects s ! cl_data cl)")
  let ?s4 = "(setStatus ?t Running s)\<lparr>dataObjects := dataObjects s @ [m], trace := trace s @ evs\<rparr>"
  have c4: "consistent ?s4"
    using assms(1) by (auto simp: consistent_iff less_Suc_eq)
  show ?thesis
  proof (cases res)
    case (Inl e)
    have "consistent (handleError w ?t e ?s4)"
      using c4 assms(2) by (intro consistent_handleError) simp_all
    with Inl show ?thesis
      by (simp add: immediateCallback_running[OF False mh])
  next
    case (Inr ps)
    have "consistent (?s4\<lparr>pending := pending s @ [\<lparr>at_taskInQueue = ?t, at_promises = ps\<rparr>]\<rparr>)"
      using c4 by (simp add: consistent_iff)
    with Inr show ?thesis
      by (simp add: immediateCallback_running[OF False mh])
  qed
qed

lemma consistent_enqueueTask:
  assumes "consistent s" "data opts < length (dataObjects s)"
  shows "consistent (snd (enqueueTask opts s))"
  using assms
  by (auto simp: consistent_iff enqueueTask_immediates nth_append less_Suc_eq)

lemma consistent_executeCopy:
  assumes "consistent s" "t < length (taskObjects s)"
  shows "consistent (executeCopy t s)"
proof -
  let ?s1 = "s\<lparr>taskObjects := taskObjects s @
            [\<lparr>id' = id' (taskObjects s ! t), options = options (taskObjects s ! t),
              status = status (taskObjects s ! t)\<rparr>]\<rparr>"
  have "consistent ?s1"
    using assms by (auto simp: consistent_iff nth_append less_Suc_eq)
  then have "consistent (executeTask (length (taskObjects s)) ?s1)"
    by (rule consistent_executeTask) simp
  then show ?thesis
    by (simp add: executeCopy_def)
qed

lemma consistent_foldl_executeCopy:
  assumes "consistent s" "\<forall>t \<in> set ts. t < length (taskObjects s)"
  shows "consistent (foldl (\<lambda>s' t. executeCopy t s') s ts)"
  using assms
proof (induction ts arbitrary: s)
  case Nil
  then show ?case by simp
next
  case (Cons t ts)
  have "consistent (executeCopy t s)"
    using Cons.prems by (intro consistent_executeCopy) simp_all
  moreover have "\<forall>u \<in> set ts. u < length (taskObjects (executeCopy t s))"
    using Cons.prems(2) by auto
  ultimately show ?case
    using Cons.IH by simp
qed

lemma consistent_foldl_setStatus:
  "consistent s \<Longrightarrow> consistent (foldl (\<lambda>s' t. setStatus t st s') s ts)"
  by (induction ts arbitrary: s) (simp_all add: consistent_setStatus)

lemma consistent_step:
  assumes "invariant s" "consistent s"
  shows "consistent (step a s)"
proof (cases a)
  case (NewObject m)
  with assms(2) show ?thesis by (auto simp: newObject_def consistent_iff less_Suc_eq)
next
  case (On event handler)
  with assms(2) show ?thesis by (cases handler) (simp_all add: on_def consistent_iff)
next
  case (EnqueueTask opts)
  with assms(2) show ?thesis by (simp add: consistent_enqueueTask)
next
  case EnqueueRemainingTasks
  have "\<forall>t \<in> set (filter (\<lambda>t. status (taskObjects s ! t) = Queued) (tasksInQueue s)).
      t < length (taskObjects s)"
    using assms(1) by (simp add: invariant_iff)
  with EnqueueRemainingTasks assms(2) show ?thesis
    by (simp add: enqueueRemainingTasks_def Let_def consistent_foldl_executeCopy)
next
  case StopAllEnqueuedTasks
  with assms(2) show ?thesis
    by (simp add: stopAllEnqueuedTasks_def Let_def consistent_foldl_setStatus)
next
  case (RunImmediate w)
  show ?thesis
  proof (cases "immediates s")
    case Nil
    with RunImmediate assms(2) show ?thesis by (simp add: runImmediate_def)
  next
    case (Cons cl rest)
    have "consistent (s\<lparr>immediates := rest\<rparr>)"
      using assms(2) Cons by (simp add: consistent_iff)
    with invariant_pop_immediate(2)[OF assms(1) Cons] RunImmediate Cons show ?thesis
      by (simp add: runImmediate_def consistent_immediateCallback)
  qed
next
  case (Settle w i j)
  let ?t = "at_taskInQueue (pending s ! i)"
  let ?s0 = "s\<lparr>pending := take i (pending s) @ drop (Suc i) (pending s)\<rparr>"
  have c0: "consistent ?s0"
    using assms(2) by (simp add: consistent_iff)
  consider "settle w i j s = s"
    | "i < length (pending s)" "settle w i j s = thenCallback ?t ?s0"
    | e where "i < length (pending s)" "settle w i j s = handleError w ?t e ?s0"
    using settle_cases[of w i j s] by blast
  then show ?thesis
  proof cases
    case 1
    with Settle assms(2) show ?thesis by simp
  next
    case 2
    with Settle c0 show ?thesis by (simp add: consistent_thenCallback)
  next
    case 3
    from invariant_pop_pending(2)[OF assms(1) 3(1)] Settle c0 3(2) show ?thesis
      by (simp add: consistent_handleError)
  qed
qed

lemma consistent_reachable: "consistent (run acts new_MemoryQueueStorage)"
proof -
  have "invariant s \<Longrightarrow> consistent s \<Longrightarrow> consistent (run acts s)" for s :: "('a, 'b, 'c) MemoryQueueStorage"
    by (induction acts arbitrary: s) (simp_all add: invariant_step consistent_step)
  then show ?thesis
    by (simp add: invariant_new consistent_new)
qed

lemma immediateCallback_allocates:
  "\<not> isStopped (cl_taskInQueue cl) s \<Longrightarrow>
     length (dataObjects (immediateCallback w cl s)) = Suc (length (dataObjects s))"
proof -
  assume ns: "\<not> isStopped (cl_taskInQueue cl) s"
  obtain evs m res where mh: "mapHandlers w (cl_taskInQueue cl) (length (dataObjects s)) (cl_key cl) 0
            (cl_executionHandlers cl) (dataObjects s ! cl_data cl) = (evs, m, res)"
    by (cases "mapHandlers w (cl_taskInQueue cl) (length (dataObjects s)) (cl_key cl) 0
            (cl_executionHandlers cl) (dataObjects s ! cl_data cl)")
  show ?thesis
    by (simp add: immediateCallback_running[OF ns mh] Let_def split: sum.split)
qed

lemma immediateCallback_new_events:
  "\<exists>new. trace (immediateCallback w cl s) = trace s @ new \<and>
     (\<forall>t i c m k. ExecuteEvent t i c m k \<in> set new \<longrightarrow>
        t = cl_taskInQueue cl \<and> c = length (dataObjects s) \<and>
        c < length (dataObjects (immediateCallback w cl s)) \<and>
        (i = 0 \<longrightarrow> m = dataObjects s ! cl_data cl \<and> k = cl_key cl))"
proof (cases "isStopped (cl_taskInQueue cl) s")
  case True
  then show ?thesis by (simp add: immediateCallback_stopped)
next
  case False
  from immediateCallback_events[of w cl s] immediateCallback_allocates[OF False, of w]
  show ?thesis
    by (metis lessI)
qed

lemma step_new_events:
  assumes "invariant s" "consistent s"
  shows "\<exists>new. trace (step a s) = trace s @ new \<and>
     (\<forall>t i c m k. ExecuteEvent t i c m k \<in> set new \<longrightarrow>
        length (dataObjects s) \<le> c \<and> c < length (dataObjects (step a s)) \<and>
        (i = 0 \<longrightarrow> m = recordData s t \<and> k = key (options (taskObjects s ! t))))"
proof (cases a)
  case (NewObject m)
  then show ?thesis by (simp add: newObject_def)
next
  case (On event handler)
  then show ?thesis by (cases handler) (simp_all add: on_def)
next
  case (RunImmediate w)
  show ?thesis
  proof (cases "immediates s")
    case Nil
    with RunImmediate show ?thesis by (simp add: runImmediate_def)
  next
    case (Cons cl rest)
    let ?s0 = "s\<lparr>immediates := rest\<rparr>"
    have cl: "cl_data cl = data (options (taskObjects s ! cl_taskInQueue cl))"
        "cl_key cl = key (options (taskObjects s ! cl_taskInQueue cl))"
      using assms(2) Cons by (simp_all add: consistent_iff)
    obtain new where new: "trace (immediateCallback w cl ?s0) = trace ?s0 @ new"
      and ev: "\<forall>t i c m k. ExecuteEvent t i c m k \<in> set new \<longrightarrow>
        t = cl_taskInQueue cl \<and> c = length (dataObjects ?s0) \<and>
        c < length (dataObjects (immediateCallback w cl ?s0)) \<and>
        (i = 0 \<longrightarrow> m = dataObjects ?s0 ! cl_data cl \<and> k = cl_key cl)"
      using immediateCallback_new_events[of w cl ?s0] by blast
    have "trace (step a s) = trace s @ new"
      using RunImmediate Cons new by (simp add: runImmediate_def)
    moreover have "\<forall>t i c m k. ExecuteEvent t i c m k \<in> set new \<longrightarrow>
        length (dataObjects s) \<le> c \<and> c < length (dataObjects (step a s)) \<and>
        (i = 0 \<longrightarrow> m = recordData s t \<and> k = key (options (taskObjects s ! t)))"
    proof (intro allI impI)
      fix t i c m k
      assume "ExecuteEvent t i c m k \<in> set new"
      with ev have "t = cl_taskInQueue cl" "c = length (dataObjects s)"
        "c < length (dataObjects (immediateCallback w cl ?s0))"
        "i = 0 \<longrightarrow> m = dataObjects s ! cl_data cl \<and> k = cl_key cl"
        by simp_all
      then show "length (dataObjects s) \<le> c \<and> c < length (dataObjects (step a s)) \<and>
        (i = 0 \<longrightarrow> m = recordData s t \<and> k = key (options (taskObjects s ! t)))"
        using cl RunImmediate Cons by (simp add: runImmediate_def recordData_def)
    qed
    ultimately show ?thesis by blast
  qed
next
  case (Settle w i j)
  with settle_events[of w i j s] show ?thesis by auto
qed simp_all

text \<open>
  C8. In any state \<open>s\<close> the program has reached, and for any turn it takes next: every
  execution handler called in that turn is called on a data object that did not exist
  in \<open>s\<close> (so it is no record's data object and no earlier context's); the first handler
  finds in it the mapping the record's data object holds, together with the key of the
  record (a later handler finds the context as the earlier ones left it). Whatever the
  handlers do to their context, every data object that existed in \<open>s\<close> holds what it
  held, and so does the data of every stored record.
\<close>

theorem context_data_is_a_fresh_copy:
  fixes pre :: "('w, 'v, 'x) action list"
  shows "let s = run pre new_MemoryQueueStorage; s' = step a s in
     (\<forall>t < length (taskObjects s). recordData s' t = recordData s t) \<and>
     (\<forall>d < length (dataObjects s). dataObjects s' ! d = dataObjects s ! d) \<and>
     (\<exists>new. trace s' = trace s @ new \<and>
        (\<forall>t i c m k. ExecuteEvent t i c m k \<in> set new \<longrightarrow>
           length (dataObjects s) \<le> c \<and> c < length (dataObjects s') \<and>
           (i = 0 \<longrightarrow> m = recordData s t \<and> k = key (options (taskObjects s ! t)))))"
proof -
  let ?s = "run pre new_MemoryQueueStorage :: ('w, 'v, 'x) MemoryQueueStorage"
  have inv: "invariant ?s" and con: "consistent ?s"
    by (rule invariant_reachable, rule consistent_reachable)
  have heap: "\<forall>d < length (dataObjects ?s). dataObjects (step a ?s) ! d = dataObjects ?s ! d"
    using step_data[of ?s a] by simp
  have "\<forall>t < length (taskObjects ?s). recordData (step a ?s) t = recordData ?s t"
  proof (intro allI impI)
    fix t
    assume t: "t < length (taskObjects ?s)"
    then have "data (options (taskObjects ?s ! t)) < length (dataObjects ?s)"
      using con by (simp add: consistent_iff)
    with heap step_options[OF t, of a] show "recordData (step a ?s) t = recordData ?s t"
      by (simp add: recordData_def)
  qed
  with heap step_new_events[OF inv con, of a] show ?thesis
    by (simp add: Let_def)
qed

text \<open>
  An instance of C8: two records submitted with the same data object and a handler that
  removes one key and adds another.
\<close>

theorem context_data_is_a_fresh_copy_witness:
  "let mutating = Callable (\<lambda>w e. None) (\<lambda>w m k. ((m(''x'' := None, ''y'' \<mapsto> (5::nat)), k), Fulfils));
       s = run [On ''execute'' mutating, NewObject [''x'' \<mapsto> 1],
                EnqueueTask \<lparr>data = 0, key = ''t2''\<rparr>, EnqueueTask \<lparr>data = 0, key = ''t2''\<rparr>,
                RunImmediate ()] (new_MemoryQueueStorage :: (unit, nat, nat) MemoryQueueStorage);
       s' = step (RunImmediate ()) s
   in length (taskObjects s) = 2 \<and> length (dataObjects s) = 2 \<and>
      recordData s 1 = [''x'' \<mapsto> 1] \<and> recordData s' 1 = [''x'' \<mapsto> 1] \<and>
      dataObjects s ! 1 = [''y'' \<mapsto> 5] \<and> dataObjects s' ! 1 = [''y'' \<mapsto> 5] \<and>
      trace s' = trace s @ [ExecuteEvent 1 0 2 [''x'' \<mapsto> 1] ''t2''] \<and>
      dataObjects s' ! 2 = [''y'' \<mapsto> 5] \<and> key (options (taskObjects s ! 1)) = ''t2''"
proof -
  define pre :: "(unit, nat, nat) action list" where
    "pre = [On ''execute'' (Callable (\<lambda>w e. None) (\<lambda>w m k. ((m(''x'' := None, ''y'' \<mapsto> (5::nat)), k), Fulfils))),
            NewObject [''x'' \<mapsto> 1],
            EnqueueTask \<lparr>data = 0, key = ''t2''\<rparr>, EnqueueTask \<lparr>data = 0, key = ''t2''\<rparr>,
            RunImmediate ()]"
  define s where "s = run pre new_MemoryQueueStorage"
  define s' where "s' = step (RunImmediate ()) s"
  have ev: "length (taskObjects s) = 2" "length (dataObjects s) = 2"
    "recordData s 1 = [''x'' \<mapsto> 1]" "dataObjects s ! 1 = [''y'' \<mapsto> 5]"
    "key (options (taskObjects s ! 1)) = ''t2''"
    by (simp_all add: s_def pre_def eval_defs recordData_def increment_def)
  have ev': "trace s' = trace s @ [ExecuteEvent 1 0 2 [''x'' \<mapsto> 1] ''t2'']"
    "dataObjects s' ! 2 = [''y'' \<mapsto> 5]"
    by (simp_all add: s'_def s_def pre_def eval_defs increment_def)
  note inst = context_data_is_a_fresh_copy[where pre = pre and a = "RunImmediate ()",
      folded s_def, unfolded Let_def, folded s'_def]
  have "recordData s' 1 = recordData s 1" "dataObjects s' ! 1 = dataObjects s ! 1"
    using inst ev(1,2) by simp_all
  with ev ev' show ?thesis
    unfolding Let_def pre_def[symmetric] s_def[symmetric] s'_def[symmetric]
    by simp
qed

subsection \<open>Terminal statuses\<close>

text \<open>
  C2 as stated fails: a record is \<open>Stopped\<close> while its attempt is in flight, and the
  rejection of that attempt makes it \<open>Failed\<close>.
\<close>

theorem stopped_record_becomes_failed_counterexample:
  "status (taskObjects (run
      [On ''execute'' (Callable (\<lambda>w e. None) (\<lambda>w m k. ((m, k), Rejects (Thrown (1::nat))))),
       NewObject [''x'' \<mapsto> (1::nat)], EnqueueTask \<lparr>data = 0, key = ''t1''\<rparr>,
       RunImmediate (), StopAllEnqueuedTasks]
      new_MemoryQueueStorage) ! 0) = Stopped \<and>
   status (taskObjects (run
      [On ''execute'' (Callable (\<lambda>w e. None) (\<lambda>w m k. ((m, k), Rejects (Thrown (1::nat))))),
       NewObject [''x'' \<mapsto> (1::nat)], EnqueueTask \<lparr>data = 0, key = ''t1''\<rparr>,
       RunImmediate (), StopAllEnqueuedTasks, Settle () 0 0]
      new_MemoryQueueStorage) ! 0) = Failed"
  by (simp add: eval_defs)

text \<open>
  C2, amended. In any state the program has reached, for any record \<open>t\<close> and any turn:
  a \<open>Succeded\<close> record stays \<open>Succeded\<close>; a \<open>Stopped\<close> record stays \<open>Stopped\<close> unless the
  turn is the settling of its own attempt, the one in flight when it was stopped; that
  turn (unless the attempt keeps waiting) makes it \<open>Succeded\<close> or \<open>Failed\<close> and leaves no
  attempt under way for it, so it is not retried.
\<close>

theorem terminal_statuses:
  fixes pre :: "('w, 'v, 'x) action list"
  assumes "t < length (taskObjects (run pre new_MemoryQueueStorage))"
  shows "let s = run pre new_MemoryQueueStorage; s' = step a s in
     (status (taskObjects s ! t) = Succeded \<longrightarrow> status (taskObjects s' ! t) = Succeded) \<and>
     (status (taskObjects s ! t) = Stopped \<and> \<not> (isSettle a \<and> target a s = Some t) \<longrightarrow>
        status (taskObjects s' ! t) = Stopped) \<and>
     (status (taskObjects s ! t) = Stopped \<and> isSettle a \<and> target a s = Some t \<longrightarrow>
        s' = s \<or>
        (status (taskObjects s' ! t) = Succeded \<or> status (taskObjects s' ! t) = Failed) \<and>
        t \<notin> set (scheduled s'))"
proof -
  let ?s = "run pre new_MemoryQueueStorage :: ('w, 'v, 'x) MemoryQueueStorage"
  have inv: "invariant ?s"
    by (rule invariant_reachable)
  have stop: "status (taskObjects (stopAllEnqueuedTasks ?s) ! t) = status (taskObjects ?s ! t)"
    if "status (taskObjects ?s ! t) = Succeded \<or> status (taskObjects ?s ! t) = Stopped"
    using that by (auto simp: stopAllEnqueuedTasks_status)
  have other: "status (taskObjects (step a ?s) ! t) = status (taskObjects ?s ! t)"
    if "target a ?s \<noteq> Some t"
      "status (taskObjects ?s ! t) = Succeded \<or> status (taskObjects ?s ! t) = Stopped"
  proof (cases "a = StopAllEnqueuedTasks")
    case True
    with stop[OF that(2)] show ?thesis by simp
  next
    case False
    from step_status_other[OF assms that(1) False] show ?thesis .
  qed
  have a: "status (taskObjects (step a ?s) ! t) = Succeded"
    if "status (taskObjects ?s ! t) = Succeded"
  proof -
    have "t \<notin> set (scheduled ?s)"
      using inv that by (auto simp: invariant_iff)
    then have "target a ?s \<noteq> Some t"
      by (auto dest: target_scheduled)
    with other that show ?thesis by simp
  qed
  have b: "status (taskObjects (step a ?s) ! t) = Stopped"
    if st: "status (taskObjects ?s ! t) = Stopped" and ns: "\<not> (isSettle a \<and> target a ?s = Some t)"
  proof (cases "target a ?s = Some t")
    case False
    with other st show ?thesis by simp
  next
    case True
    with ns have "\<not> isSettle a" by simp
    with True obtain w cl rest where a: "a = RunImmediate w" and im: "immediates ?s = cl # rest"
      and cl: "cl_taskInQueue cl = t"
      by (cases a) (auto split: list.splits)
    have "isStopped (cl_taskInQueue cl) (?s\<lparr>immediates := rest\<rparr>)"
      using st cl by (simp add: isStopped_def)
    then show ?thesis
      using st by (simp add: a runImmediate_def im immediateCallback_stopped)
  qed
  have c: "step a ?s = ?s \<or>
        (status (taskObjects (step a ?s) ! t) = Succeded \<or>
         status (taskObjects (step a ?s) ! t) = Failed) \<and>
        t \<notin> set (scheduled (step a ?s))"
    if st: "status (taskObjects ?s ! t) = Stopped" and se: "isSettle a" and tg: "target a ?s = Some t"
  proof -
    from se obtain w i j where a: "a = Settle w i j"
      by (cases a) simp_all
    from tg a have i: "i < length (pending ?s)" and t: "at_taskInQueue (pending ?s ! i) = t"
      by (auto split: if_splits)
    have stopped: "isStopped t ?s"
      using st by (simp add: isStopped_def)
    from step_target_stopped[OF inv tg stopped]
    have sched: "step a ?s = ?s \<or> t \<notin> set (scheduled (step a ?s))" .
    from settle_cases[of w i j ?s] assms
    have "step a ?s = ?s \<or> status (taskObjects (step a ?s) ! t) = Succeded \<or>
          status (taskObjects (step a ?s) ! t) = Failed"
      by (auto simp: a t)
    with sched show ?thesis by blast
  qed
  from a b c show ?thesis
    by (simp add: Let_def)
qed

text \<open>
  Instances of the amended C2: a stopped record whose attempt is in flight, a stopped
  record whose callback waits, and a record that has succeeded.
\<close>

theorem terminal_statuses_witness:
  "let rejecting = On ''execute'' (Callable (\<lambda>w e. None) (\<lambda>w m k. ((m, k), Rejects (Thrown (1::nat)))));
       fulfilling = On ''execute'' (Callable (\<lambda>w e. None) (\<lambda>w m k. ((m, k), Fulfils)));
       submit = [NewObject [''x'' \<mapsto> (1::nat)], EnqueueTask \<lparr>data = 0, key = ''t1''\<rparr>];
       inflight = run (rejecting # submit @ [RunImmediate (), StopAllEnqueuedTasks])
                    (new_MemoryQueueStorage :: (unit, nat, nat) MemoryQueueStorage);
       waiting = run (rejecting # submit @ [StopAllEnqueuedTasks])
                    (new_MemoryQueueStorage :: (unit, nat, nat) MemoryQueueStorage);
       finished = run (fulfilling # submit @ [RunImmediate (), Settle () 0 0])
                    (new_MemoryQueueStorage :: (unit, nat, nat) MemoryQueueStorage)
   in status (taskObjects inflight ! 0) = Stopped \<and>
      target (Settle () 0 0) inflight = Some 0 \<and>
      status (taskObjects (step (Settle () 0 0) inflight) ! 0) = Failed \<and>
      0 \<notin> set (scheduled (step (Settle () 0 0) inflight)) \<and>
      status (taskObjects waiting ! 0) = Stopped \<and>
      target (RunImmediate ()) waiting = Some 0 \<and>
      status (taskObjects (step (RunImmediate ()) waiting) ! 0) = Stopped \<and>
      status (taskObjects (step StopAllEnqueuedTasks waiting) ! 0) = Stopped \<and>
      status (taskObjects finished ! 0) = Succeded \<and>
      status (taskObjects (step StopAllEnqueuedTasks finished) ! 0) = Succeded \<and>
      status (taskObjects (step EnqueueRemainingTasks finished) ! 0) = Succeded"
proof -
  define rejecting :: "(unit, nat, nat) action" where
    "rejecting = On ''execute'' (Callable (\<lambda>w e. None) (\<lambda>w m k. ((m, k), Rejects (Thrown (1::nat)))))"
  define fulfilling :: "(unit, nat, nat) action" where
    "fulfilling = On ''execute'' (Callable (\<lambda>w e. None) (\<lambda>w m k. ((m, k), Fulfils)))"
  define submit :: "(unit, nat, nat) action list" where
    "submit = [NewObject [''x'' \<mapsto> (1::nat)], EnqueueTask \<lparr>data = 0, key = ''t1''\<rparr>]"
  define preA where "preA = rejecting # submit @ [RunImmediate (), StopAllEnqueuedTasks]"
  define preB where "preB = rejecting # submit @ [StopAllEnqueuedTasks]"
  define preC where "preC = fulfilling # submit @ [RunImmediate (), Settle () 0 0]"
  define inflight where "inflight = run preA new_MemoryQueueStorage"
  define waiting where "waiting = run preB new_MemoryQueueStorage"
  define finished where "finished = run preC new_MemoryQueueStorage"
  note defs = preA_def preB_def preC_def rejecting_def fulfilling_def submit_def
  have A: "status (taskObjects inflight ! 0) = Stopped" "target (Settle () 0 0) inflight = Some 0"
      "0 < length (taskObjects inflight)" "step (Settle () 0 0) inflight \<noteq> inflight"
    by (simp_all add: inflight_def defs eval_defs)
  have B: "status (taskObjects waiting ! 0) = Stopped" "target (RunImmediate ()) waiting = Some 0"
      "0 < length (taskObjects waiting)"
    by (simp_all add: waiting_def defs eval_defs)
  have C: "status (taskObjects finished ! 0) = Succeded" "0 < length (taskObjects finished)"
    by (simp_all add: finished_def defs eval_defs)
  note instA = terminal_statuses[where pre = preA and t = 0 and a = "Settle () 0 0",
      folded inflight_def, unfolded Let_def, OF A(3)]
  have A': "status (taskObjects (step (Settle () 0 0) inflight) ! 0) = Succeded \<or>
            status (taskObjects (step (Settle () 0 0) inflight) ! 0) = Failed"
      "0 \<notin> set (scheduled (step (Settle () 0 0) inflight))"
    using instA A by simp_all
  have A'': "status (taskObjects (step (Settle () 0 0) inflight) ! 0) = Failed"
    by (simp add: inflight_def defs eval_defs)
  have B1: "status (taskObjects (step (RunImmediate ()) waiting) ! 0) = Stopped"
    using terminal_statuses[where pre = preB and t = 0 and a = "RunImmediate ()",
      folded waiting_def, unfolded Let_def, OF B(3)] B by simp
  have B2: "status (taskObjects (step StopAllEnqueuedTasks waiting) ! 0) = Stopped"
    using terminal_statuses[where pre = preB and t = 0 and a = "StopAllEnqueuedTasks",
      folded waiting_def, unfolded Let_def, OF B(3)] B by simp
  have C1: "status (taskObjects (step StopAllEnqueuedTasks finished) ! 0) = Succeded"
    using terminal_statuses[where pre = preC and t = 0 and a = "StopAllEnqueuedTasks",
      folded finished_def, unfolded Let_def, OF C(2)] C by simp
  have C2: "status (taskObjects (step EnqueueRemainingTasks finished) ! 0) = Succeded"
    using terminal_statuses[where pre = preC and t = 0 and a = "EnqueueRemainingTasks",
      folded finished_def, unfolded Let_def, OF C(2)] C by simp
  from A A' A'' B B1 B2 C C1 C2 show ?thesis
    unfolding Let_def rejecting_def[symmetric] fulfilling_def[symmetric] submit_def[symmetric]
      preA_def[symmetric] preB_def[symmetric] preC_def[symmetric]
      inflight_def[symmetric] waiting_def[symmetric] finished_def[symmetric]
    by simp
qed

subsection \<open>enqueueRemainingTasks\<close>

text \<open>
  C3 does not hold of the code. A record is submitted while no execution handler is
  subscribed, so it stays \<open>Queued\<close>; a handler that always fulfils is then subscribed and
  \<open>enqueueRemainingTasks\<close> is called. The call returns the empty list although it
  scheduled an attempt; the attempt is for a new record (reference 1), not for the stored
  one (reference 0); and when that attempt has succeeded the stored record is still
  \<open>Queued\<close> and still in the backing list.
\<close>

theorem enqueueRemainingTasks_runs_a_copy:
  "let s = run [NewObject [''x'' \<mapsto> (1::nat)], EnqueueTask \<lparr>data = 0, key = ''t1''\<rparr>,
                On ''execute'' (Callable (\<lambda>w e. None) (\<lambda>w m k. ((m, k), Fulfils)))]
               (new_MemoryQueueStorage :: (unit, nat, nat) MemoryQueueStorage);
       s1 = snd (enqueueRemainingTasks s);
       s2 = run [RunImmediate (), Settle () 0 0] s1
   in tasksInQueue s = [0] \<and> status (taskObjects s ! 0) = Queued \<and>
      fst (enqueueRemainingTasks s) = [] \<and>
      map cl_taskInQueue (immediates s1) = [1] \<and> tasksInQueue s1 = [0] \<and>
      trace s2 = [ExecuteEvent 1 0 1 [''x'' \<mapsto> 1] ''t1''] \<and>
      status (taskObjects s2 ! 1) = Succeded \<and>
      status (taskObjects s2 ! 0) = Queued \<and> tasksInQueue s2 = [0] \<and>
      immediates s2 = [] \<and> pending s2 = []"
  by (simp add: eval_defs)

subsection \<open>Number to string is injective\<close>

lemma digit_inj:
  assumes "a < 10" "b < 10" "digit a = digit b"
  shows "a = b"
proof -
  have "a \<in> {0, 1, 2, 3, 4, 5, 6, 7, 8, 9}" "b \<in> {0, 1, 2, 3, 4, 5, 6, 7, 8, 9}"
    using assms(1,2) by auto
  with assms(3) show ?thesis
    by (auto simp: digit_def)
qed

lemma digit_not_minus: "d < 10 \<Longrightarrow> digit d \<noteq> CHR ''-''"
proof -
  assume "d < 10"
  then have "d \<in> {0, 1, 2, 3, 4, 5, 6, 7, 8, 9}"
    by auto
  then show ?thesis
    by (auto simp: digit_def)
qed

lemma decimal_small: "n < 10 \<Longrightarrow> decimal n = [digit n]"
  by (simp add: decimal.simps)

lemma decimal_large: "\<not> n < 10 \<Longrightarrow> decimal n = decimal (n div 10) @ [digit (n mod 10)]"
  by (subst decimal.simps) simp

lemma decimal_not_Nil: "decimal n \<noteq> []"
  by (cases "n < 10") (simp_all add: decimal_small decimal_large)

lemma decimal_inj: "decimal n = decimal m \<Longrightarrow> n = m"
proof (induction n arbitrary: m rule: decimal.induct)
  case (1 n)
  show ?case
  proof (cases "n < 10")
    case True
    show ?thesis
    proof (cases "m < 10")
      case m: True
      with True "1.prems" show ?thesis
        by (simp add: decimal_small digit_inj)
    next
      case m: False
      with True "1.prems" decimal_not_Nil[of "m div 10"] show ?thesis
        by (simp add: decimal_small decimal_large)
    qed
  next
    case False
    show ?thesis
    proof (cases "m < 10")
      case m: True
      with False "1.prems" decimal_not_Nil[of "n div 10"] show ?thesis
        by (simp add: decimal_small decimal_large)
    next
      case m: False
      with False "1.prems" have eq: "decimal (n div 10) = decimal (m div 10)"
        and d: "digit (n mod 10) = digit (m mod 10)"
        by (simp_all add: decimal_large)
      from "1.IH"[OF False eq] have "n div 10 = m div 10" .
      moreover from d have "n mod 10 = m mod 10"
        by (intro digit_inj) simp_all
      ultimately show ?thesis
        by (metis div_mult_mod_eq)
    qed
  qed
qed

lemma decimal_hd: "hd (decimal n) \<noteq> CHR ''-''"
proof (induction n rule: decimal.induct)
  case (1 n)
  show ?case
  proof (cases "n < 10")
    case True
    then show ?thesis by (simp add: decimal_small digit_not_minus)
  next
    case False
    with "1.IH" decimal_not_Nil[of "n div 10"] show ?thesis
      by (simp add: decimal_large)
  qed
qed

lemma String_inj: "String a = String b \<Longrightarrow> a = b"
proof -
  assume eq: "String a = String b"
  have neg: "False" if "x < 0" "\<not> y < 0" "String x = String y" for x y
  proof -
    from that have "hd (decimal (nat y)) = CHR ''-''"
      by (simp add: String_def) (metis list.sel(1))
    with decimal_hd show False by blast
  qed
  show ?thesis
  proof (cases "a < 0"; cases "b < 0")
    assume "a < 0" "b < 0"
    with eq have "nat (- a) = nat (- b)"
      by (simp add: String_def decimal_inj)
    with \<open>a < 0\<close> \<open>b < 0\<close> show ?thesis by simp
  next
    assume "a < 0" "\<not> b < 0"
    with neg eq show ?thesis by blast
  next
    assume "\<not> a < 0" "b < 0"
    with neg[of b a] eq show ?thesis by simp
  next
    assume "\<not> a < 0" "\<not> b < 0"
    with eq have "nat a = nat b"
      by (simp add: String_def decimal_inj)
    with \<open>\<not> a < 0\<close> \<open>\<not> b < 0\<close> show ?thesis by simp
  qed
qed

subsection \<open>Identifiers\<close>

lemma handleError_ids [simp]:
  "map id' (taskObjects (handleError w t e s)) = map id' (taskObjects s)"
  by simp

lemma immediateCallback_ids [simp]:
  "map id' (taskObjects (immediateCallback w cl s)) = map id' (taskObjects s)"
proof (cases "isStopped (cl_taskInQueue cl) s")
  case True
  then show ?thesis by (simp add: immediateCallback_stopped)
next
  case False
  obtain evs m res where mh: "mapHandlers w (cl_taskInQueue cl) (length (dataObjects s)) (cl_key cl) 0
            (cl_executionHandlers cl) (dataObjects s ! cl_data cl) = (evs, m, res)"
    by (cases "mapHandlers w (cl_taskInQueue cl) (length (dataObjects s)) (cl_key cl) 0
            (cl_executionHandlers cl) (dataObjects s ! cl_data cl)")
  show ?thesis
    by (simp add: immediateCallback_running[OF False mh] Let_def split: sum.split)
qed

lemma settle_ids [simp]:
  "map id' (taskObjects (settle w i j s)) = map id' (taskObjects s)"
  using settle_cases[of w i j s] by auto

lemma foldl_setStatus_ids [simp]:
  "map id' (taskObjects (foldl (\<lambda>s' t. setStatus t st s') s ts)) = map id' (taskObjects s)"
  by (induction ts arbitrary: s) simp_all

lemma foldl_executeCopy_ids:
  "\<forall>t \<in> set ts. t < length (taskObjects s) \<Longrightarrow>
     set (map id' (taskObjects (foldl (\<lambda>s' t. executeCopy t s') s ts))) \<subseteq>
       set (map id' (taskObjects s))"
proof (induction ts arbitrary: s)
  case Nil
  then show ?case by simp
next
  case (Cons t ts)
  have "set (map id' (taskObjects (foldl (\<lambda>s' t. executeCopy t s') (executeCopy t s) ts))) \<subseteq>
      set (map id' (taskObjects (executeCopy t s)))"
    using Cons.prems by (intro Cons.IH) auto
  also have "\<dots> \<subseteq> set (map id' (taskObjects s))"
    using Cons.prems by auto
  finally show ?case by simp
qed

text \<open>The identifiers issued so far, and the counter.\<close>

lemma step_nextId:
  "nextId (step a s) = nextId s \<or>
   (isEnqueueTask a \<and> nextId (step a s) = increment (nextId s))"
proof (cases a)
  case (On event handler)
  then show ?thesis by (cases handler) (simp_all add: on_def)
next
  case (RunImmediate w)
  show ?thesis
  proof (cases "immediates s")
    case Nil
    with RunImmediate show ?thesis by (simp add: runImmediate_def)
  next
    case (Cons cl rest)
    have "nextId (immediateCallback w cl (s\<lparr>immediates := rest\<rparr>)) = nextId s"
    proof (cases "isStopped (cl_taskInQueue cl) (s\<lparr>immediates := rest\<rparr>)")
      case True
      then show ?thesis by (simp add: immediateCallback_stopped)
    next
      case False
      obtain evs m res where mh: "mapHandlers w (cl_taskInQueue cl)
            (length (dataObjects (s\<lparr>immediates := rest\<rparr>))) (cl_key cl) 0
            (cl_executionHandlers cl) (dataObjects (s\<lparr>immediates := rest\<rparr>) ! cl_data cl) = (evs, m, res)"
        by (cases "mapHandlers w (cl_taskInQueue cl)
            (length (dataObjects (s\<lparr>immediates := rest\<rparr>))) (cl_key cl) 0
            (cl_executionHandlers cl) (dataObjects (s\<lparr>immediates := rest\<rparr>) ! cl_data cl)")
      show ?thesis
        by (simp add: immediateCallback_running[OF False mh] Let_def split: sum.split)
    qed
    with RunImmediate Cons show ?thesis by (simp add: runImmediate_def)
  qed
next
  case (Settle w i j)
  then show ?thesis using settle_cases[of w i j s] by auto
qed (simp_all add: newObject_def)

lemma increment_le: "n \<le> increment n" "increment n \<le> n + 1"
  by (simp_all add: increment_def)

lemma nextId_run_bound:
  "nextId s \<le> nextId (run acts s) \<and>
   nextId (run acts s) \<le> nextId s + int (length (filter isEnqueueTask acts))"
proof (induction acts arbitrary: s)
  case Nil
  then show ?case by simp
next
  case (Cons a acts)
  from step_nextId[of a s] increment_le[of "nextId s"]
  have "nextId s \<le> nextId (step a s) \<and>
        nextId (step a s) \<le> nextId s + (if isEnqueueTask a then 1 else 0)"
    by auto
  with Cons.IH[of "step a s"] show ?case
    by auto
qed

lemma step_ids:
  assumes "invariant s"
  shows "set (map id' (taskObjects (step a s))) \<subseteq> set (map id' (taskObjects s)) \<or>
         (isEnqueueTask a \<and> nextId (step a s) = increment (nextId s) \<and>
          set (map id' (taskObjects (step a s))) =
            insert (String (nextId s)) (set (map id' (taskObjects s))))"
proof (cases a)
  case (NewObject m)
  then show ?thesis by (simp add: newObject_def)
next
  case (On event handler)
  then show ?thesis by (cases handler) (simp_all add: on_def)
next
  case (EnqueueTask opts)
  then show ?thesis by auto
next
  case EnqueueRemainingTasks
  have "\<forall>t \<in> set (filter (\<lambda>t. status (taskObjects s ! t) = Queued) (tasksInQueue s)).
      t < length (taskObjects s)"
    using assms by (simp add: invariant_iff)
  from foldl_executeCopy_ids[OF this] EnqueueRemainingTasks show ?thesis
    by (simp add: enqueueRemainingTasks_def Let_def)
next
  case StopAllEnqueuedTasks
  then show ?thesis by (simp add: stopAllEnqueuedTasks_def Let_def)
next
  case (RunImmediate w)
  then show ?thesis by (cases "immediates s") (simp_all add: runImmediate_def)
next
  case (Settle w i j)
  then show ?thesis by simp
qed

lemma ids_step:
  assumes "invariant s"
    and "\<forall>i \<in> set (map id' (taskObjects s)). \<exists>n. i = String n \<and> (nextId s < 2 ^ 53 \<longrightarrow> n < nextId s)"
  shows "\<forall>i \<in> set (map id' (taskObjects (step a s))).
           \<exists>n. i = String n \<and> (nextId (step a s) < 2 ^ 53 \<longrightarrow> n < nextId (step a s))"
proof
  fix i
  assume i: "i \<in> set (map id' (taskObjects (step a s)))"
  have mono: "nextId s \<le> nextId (step a s)"
    using step_nextId[of a s] increment_le(1)[of "nextId s"] by auto
  from step_ids[OF assms(1), of a]
  consider "i \<in> set (map id' (taskObjects s))"
    | "i = String (nextId s)" "nextId (step a s) = increment (nextId s)"
    using i by auto
  then show "\<exists>n. i = String n \<and> (nextId (step a s) < 2 ^ 53 \<longrightarrow> n < nextId (step a s))"
  proof cases
    case 1
    with assms(2) obtain n where "i = String n" "nextId s < 2 ^ 53 \<longrightarrow> n < nextId s"
      by blast
    with mono show ?thesis
      by (intro exI[of _ n]) auto
  next
    case 2
    then show ?thesis
      by (intro exI[of _ "nextId s"]) (auto simp: increment_def)
  qed
qed

lemma ids_reachable:
  "\<forall>i \<in> set (map id' (taskObjects (run acts new_MemoryQueueStorage))).
     \<exists>n. i = String n \<and> (nextId (run acts new_MemoryQueueStorage) < 2 ^ 53 \<longrightarrow>
            n < nextId (run acts new_MemoryQueueStorage))"
proof -
  have "invariant s \<Longrightarrow>
      \<forall>i \<in> set (map id' (taskObjects s)). \<exists>n. i = String n \<and> (nextId s < 2 ^ 53 \<longrightarrow> n < nextId s) \<Longrightarrow>
      \<forall>i \<in> set (map id' (taskObjects (run acts s))).
        \<exists>n. i = String n \<and> (nextId (run acts s) < 2 ^ 53 \<longrightarrow> n < nextId (run acts s))"
    for s :: "('a, 'b, 'c) MemoryQueueStorage"
  proof (induction acts arbitrary: s)
    case Nil
    then show ?case by simp
  next
    case (Cons a acts)
    from Cons.IH[OF invariant_step[OF Cons.prems(1)] ids_step[OF Cons.prems]]
    show ?case by simp
  qed
  note step = this
  have "\<forall>i \<in> set (map id' (taskObjects (new_MemoryQueueStorage :: ('a, 'b, 'c) MemoryQueueStorage))).
      \<exists>n. i = String n \<and> (nextId (new_MemoryQueueStorage :: ('a, 'b, 'c) MemoryQueueStorage) < 2 ^ 53 \<longrightarrow>
        n < nextId (new_MemoryQueueStorage :: ('a, 'b, 'c) MemoryQueueStorage))"
    by (simp add: new_MemoryQueueStorage_def)
  from step[OF invariant_new this] show ?thesis .
qed

text \<open>
  C4. The counter is a number, so it counts exactly up to \<open>2^53\<close>, which it reaches
  from \<^verbatim>\<open>Number.MIN_SAFE_INTEGER\<close> with the submission number \<open>2^54 - 1\<close>; and the
  backing list is an array, which has room for a record while it holds fewer than
  \<open>2^32 - 1\<close>. In a state the program has reached through fewer submissions than that,
  and where the backing list has room, \<open>enqueueTask\<close> gives the new record an identifier
  that no object created before carries (the records that have left the backing list
  included), returns that identifier in the context, and advances the counter by one,
  so the next submission returns another one.
\<close>

theorem enqueueTask_fresh_id:
  fixes pre :: "('w, 'v, 'x) action list"
  assumes "int (length (filter isEnqueueTask pre)) < 2 ^ 54 - 1"
    and "length (tasksInQueue (run pre new_MemoryQueueStorage)) < 2 ^ 32 - 1"
  shows "let s = run pre new_MemoryQueueStorage;
             context = fst (enqueueTask opts s); s' = snd (enqueueTask opts s) in
     nextId s < 2 ^ 53 \<and>
     taskObjects s' = taskObjects s @
       [\<lparr>id' = ctx_id context, options = opts, status = Queued\<rparr>] \<and>
     (\<forall>r \<in> set (taskObjects s). id' r \<noteq> ctx_id context) \<and>
     nextId s' = nextId s + 1 \<and>
     ctx_id (fst (enqueueTask opts' s')) \<noteq> ctx_id context"
proof -
  let ?s = "run pre new_MemoryQueueStorage :: ('w, 'v, 'x) MemoryQueueStorage"
  have "nextId ?s \<le> nextId (new_MemoryQueueStorage :: ('w, 'v, 'x) MemoryQueueStorage) +
      int (length (filter isEnqueueTask pre))"
    using nextId_run_bound[of "new_MemoryQueueStorage :: ('w, 'v, 'x) MemoryQueueStorage" pre]
    by simp
  with assms(1) have small: "nextId ?s < 2 ^ 53"
    by (simp add: new_MemoryQueueStorage_def MIN_SAFE_INTEGER_def)
  have fresh: "\<forall>r \<in> set (taskObjects ?s). id' r \<noteq> String (nextId ?s)"
  proof
    fix r
    assume "r \<in> set (taskObjects ?s)"
    then have "id' r \<in> set (map id' (taskObjects ?s))"
      by simp
    with ids_reachable[of pre] small obtain n where "id' r = String n" "n < nextId ?s"
      by blast
    then show "id' r \<noteq> String (nextId ?s)"
      by (auto dest: String_inj)
  qed
  have another: "String (nextId ?s + 1) \<noteq> String (nextId ?s)"
    by (auto dest: String_inj)
  from small fresh another show ?thesis
    by (simp add: Let_def increment_def)
qed

text \<open>An instance of C4: the third submission.\<close>

theorem enqueueTask_fresh_id_witness:
  "let pre = [NewObject [''x'' \<mapsto> (1::nat)], EnqueueTask \<lparr>data = 0, key = ''t2''\<rparr>,
              EnqueueTask \<lparr>data = 0, key = ''t2''\<rparr>];
       s = run pre (new_MemoryQueueStorage :: (unit, nat, nat) MemoryQueueStorage);
       ctx = fst (enqueueTask \<lparr>data = 0, key = ''t2''\<rparr> s);
       s' = snd (enqueueTask \<lparr>data = 0, key = ''t2''\<rparr> s)
   in int (length (filter isEnqueueTask pre)) < 2 ^ 54 - 1 \<and>
      length (tasksInQueue s) < 2 ^ 32 - 1 \<and>
      map id' (taskObjects s) = [''-9007199254740991'', ''-9007199254740990''] \<and>
      ctx_id ctx = ''-9007199254740989'' \<and>
      id' (taskObjects s ! 0) \<noteq> ctx_id ctx \<and> id' (taskObjects s ! 1) \<noteq> ctx_id ctx \<and>
      id' (last (taskObjects s')) = ctx_id ctx \<and>
      ctx_id (fst (enqueueTask \<lparr>data = 0, key = ''t2''\<rparr> s')) \<noteq> ctx_id ctx"
proof -
  define pre :: "(unit, nat, nat) action list" where
    "pre = [NewObject [''x'' \<mapsto> (1::nat)], EnqueueTask \<lparr>data = 0, key = ''t2''\<rparr>,
            EnqueueTask \<lparr>data = 0, key = ''t2''\<rparr>]"
  define s where "s = run pre new_MemoryQueueStorage"
  define ctx where "ctx = fst (enqueueTask \<lparr>data = 0, key = ''t2''\<rparr> s)"
  define s' where "s' = snd (enqueueTask \<lparr>data = 0, key = ''t2''\<rparr> s)"
  have few: "int (length (filter isEnqueueTask pre)) < 2 ^ 54 - 1"
    by (simp add: pre_def)
  have ids: "map id' (taskObjects s) = [''-9007199254740991'', ''-9007199254740990'']"
    "ctx_id ctx = ''-9007199254740989''" "length (taskObjects s) = 2"
    by (simp_all add: ctx_def s_def pre_def run_def newObject_def enqueueTask_def
        executeTask_def new_MemoryQueueStorage_def Let_def increment_def MIN_SAFE_INTEGER_def
        String_def decimal.simps digit_def)
  have room: "length (tasksInQueue (run pre new_MemoryQueueStorage)) < 2 ^ 32 - 1"
    by (simp add: pre_def run_def newObject_def enqueueTask_def executeTask_def
        new_MemoryQueueStorage_def Let_def)
  note inst = enqueueTask_fresh_id[where pre = pre and opts = "\<lparr>data = 0, key = ''t2''\<rparr>"
      and opts' = "\<lparr>data = 0, key = ''t2''\<rparr>", OF few room, folded s_def, unfolded Let_def,
      folded ctx_def s'_def]
  have a: "id' (taskObjects s ! 0) \<noteq> ctx_id ctx" "id' (taskObjects s ! 1) \<noteq> ctx_id ctx"
    using inst ids(3) by simp_all
  have b: "id' (last (taskObjects s')) = ctx_id ctx"
    using inst by simp
  have c: "ctx_id (fst (enqueueTask \<lparr>data = 0, key = ''t2''\<rparr> s')) \<noteq> ctx_id ctx"
    using inst by blast
  from few room ids a b c show ?thesis
    unfolding Let_def pre_def[symmetric] s_def[symmetric] ctx_def[symmetric] s'_def[symmetric]
    by simp
qed

section \<open>The queue\<close>

subsection \<open>enqueue\<close>

lemma enqueue_not_found:
  "\<not> isFunction (getTask (tasks q) k) \<Longrightarrow>
     enqueue q k optionsData storage = (Inl (Error (''No task found for key '' @ k)), storage)"
  by (simp add: enqueue_def)

text \<open>
  Whatever the registry holds under the key, the call of the missing member throws: the
  submission does not reach \<open>enqueueTask\<close>.
\<close>

lemma enqueue_is_not_forwarded:
  "isFunction (getTask (tasks q) k) \<Longrightarrow>
     enqueue q k (Some d) storage =
       (Inl (TypeError ''storage.queueTask is not a function''), storage)"
  "isFunction (getTask (tasks q) k) \<Longrightarrow>
     enqueue q k None storage =
       (Inl (TypeError ''storage.queueTask is not a function''), snd (newObject Map.empty storage))"
  by (simp_all add: enqueue_def submitMethod_def split: prod.splits)

lemma enqueue_creates_no_record:
  "(\<exists>e. fst (enqueue q k optionsData storage) = Inl e) \<and>
   taskObjects (snd (enqueue q k optionsData storage)) = taskObjects storage \<and>
   tasksInQueue (snd (enqueue q k optionsData storage)) = tasksInQueue storage \<and>
   nextId (snd (enqueue q k optionsData storage)) = nextId storage \<and>
   immediates (snd (enqueue q k optionsData storage)) = immediates storage"
proof (cases "isFunction (getTask (tasks q) k)")
  case True
  then show ?thesis
    by (cases optionsData) (simp_all add: enqueue_is_not_forwarded newObject_def)
next
  case False
  then show ?thesis
    by (simp add: enqueue_not_found)
qed

lemma getTask_ordinary:
  "tasks' k = None \<Longrightarrow> k \<notin> set objectPrototypeFunctions \<Longrightarrow> getTask tasks' k = NotFunction"
  by (simp add: getTask_def)

text \<open>
  C5 does not hold of the code. A handler is registered under \<^verbatim>\<open>t1\<close>; \<open>enqueue\<close> with
  that key does not forward the submission: it calls \<^verbatim>\<open>storage.queueTask\<close>, which the
  storage does not have, so its promise rejects with a \<^verbatim>\<open>TypeError\<close> and the storage
  is as before, without a record. On a queue where nothing is registered, \<open>enqueue\<close>
  with the key \<^verbatim>\<open>toString\<close> fails with the same \<^verbatim>\<open>TypeError\<close> and not with the error for
  a key without task: the read \<^verbatim>\<open>this._tasks["toString"]\<close> finds the function every
  object inherits, so the check \<^verbatim>\<open>typeof task !== "function"\<close> lets the key pass. A
  key that reads as no function, \<^verbatim>\<open>t2\<close>, gets the error for a key without task.
\<close>

theorem enqueue_calls_a_member_the_storage_lacks:
  "register (Pair ''t1'' (Function (\<lambda>m k. (m, Fulfils)))) [] (new_Queue :: (nat, nat) Queue) =
     Some (None, new_Queue\<lparr>tasks := [''t1'' \<mapsto> Function (\<lambda>m k. (m, Fulfils))]\<rparr>) \<and>
   enqueue ((new_Queue :: (nat, nat) Queue)\<lparr>tasks := [''t1'' \<mapsto> Function (\<lambda>m k. (m, Fulfils))]\<rparr>)
       ''t1'' (Some 0) (snd (newObject [''x'' \<mapsto> 1] (init new_MemoryQueueStorage))) =
     (Inl (TypeError ''storage.queueTask is not a function''),
      snd (newObject [''x'' \<mapsto> 1] (init new_MemoryQueueStorage))) \<and>
   taskObjects (snd (newObject [''x'' \<mapsto> (1::nat)]
       (init (new_MemoryQueueStorage :: ((nat, nat) Queue, nat, nat) MemoryQueueStorage)))) = [] \<and>
   tasks (new_Queue :: (nat, nat) Queue) ''toString'' = None \<and>
   enqueue (new_Queue :: (nat, nat) Queue) ''toString'' None
       (init (new_MemoryQueueStorage :: ((nat, nat) Queue, nat, nat) MemoryQueueStorage)) =
     (Inl (TypeError ''storage.queueTask is not a function''),
      snd (newObject Map.empty (init new_MemoryQueueStorage))) \<and>
   taskObjects (snd (newObject (Map.empty :: nat QueueTaskData)
       (init (new_MemoryQueueStorage :: ((nat, nat) Queue, nat, nat) MemoryQueueStorage)))) = [] \<and>
   enqueue (new_Queue :: (nat, nat) Queue) ''t2'' None
       (init (new_MemoryQueueStorage :: ((nat, nat) Queue, nat, nat) MemoryQueueStorage)) =
     (Inl (Error ''No task found for key t2''), init new_MemoryQueueStorage)"
  by (simp add: register_def tasksToAdd_def enqueue_def submitMethod_def new_Queue_def getTask_def
      objectPrototypeFunctions_def isFunction_def newObject_def init_def
      new_MemoryQueueStorage_def)

subsection \<open>register\<close>


lemma checkEntries_None:
  "checkEntries i entries = None \<Longrightarrow> \<forall>entry \<in> set entries. isFunction (snd entry)"
  by (induction entries arbitrary: i) (auto split: if_splits)











subsection \<open>The execute bridge\<close>

lemma executeBridge_unknown:
  "\<not> isFunction (getTask (tasks q) k) \<Longrightarrow> executeBridge q m k = ((m, k), Fulfils)"
  by (cases "getTask (tasks q) k") (simp_all add: executeBridge_def isFunction_def)

text \<open>
  With the bridge as the only execution handler, an attempt for a key that reads as no
  function calls the bridge, which calls nothing and fulfils; when the attempt settles
  the record is \<open>Succeded\<close> and out of the backing list.
\<close>

lemma unknown_key_is_swallowed:
  assumes "\<not> isFunction (getTask (tasks q) (cl_key cl))"
    and "cl_executionHandlers cl = [executeBridge]"
    and "\<not> isStopped (cl_taskInQueue cl) s" "cl_taskInQueue cl < length (taskObjects s)"
  shows "immediateCallback q cl s =
      (setStatus (cl_taskInQueue cl) Running s)
        \<lparr>dataObjects := dataObjects s @ [dataObjects s ! cl_data cl],
          trace := trace s @ [ExecuteEvent (cl_taskInQueue cl) 0 (length (dataObjects s))
                               (dataObjects s ! cl_data cl) (cl_key cl)],
          pending := pending s @ [\<lparr>at_taskInQueue = cl_taskInQueue cl, at_promises = [Fulfils]\<rparr>]\<rparr>"
    and "status (taskObjects (settle q (length (pending s)) j (immediateCallback q cl s)) !
           cl_taskInQueue cl) = Succeded"
    and "cl_taskInQueue cl \<notin>
           set (tasksInQueue (settle q (length (pending s)) j (immediateCallback q cl s)))"
proof -
  have mh: "mapHandlers q (cl_taskInQueue cl) (length (dataObjects s)) (cl_key cl) 0
      (cl_executionHandlers cl) (dataObjects s ! cl_data cl) =
      ([ExecuteEvent (cl_taskInQueue cl) 0 (length (dataObjects s)) (dataObjects s ! cl_data cl)
          (cl_key cl)], dataObjects s ! cl_data cl, Inr [Fulfils])"
    using assms(1,2) by (simp add: executeBridge_unknown)
  show run: "immediateCallback q cl s =
      (setStatus (cl_taskInQueue cl) Running s)
        \<lparr>dataObjects := dataObjects s @ [dataObjects s ! cl_data cl],
          trace := trace s @ [ExecuteEvent (cl_taskInQueue cl) 0 (length (dataObjects s))
                               (dataObjects s ! cl_data cl) (cl_key cl)],
          pending := pending s @ [\<lparr>at_taskInQueue = cl_taskInQueue cl, at_promises = [Fulfils]\<rparr>]\<rparr>"
    by (simp add: immediateCallback_running[OF assms(3) mh])
  show "status (taskObjects (settle q (length (pending s)) j (immediateCallback q cl s)) !
           cl_taskInQueue cl) = Succeded"
    unfolding run using assms(4) by (simp add: settle_def)
  show "cl_taskInQueue cl \<notin>
           set (tasksInQueue (settle q (length (pending s)) j (immediateCallback q cl s)))"
    unfolding run using assms(4) by (simp add: settle_def)
qed

text \<open>
  C10 does not hold of the code. Nothing is registered on a new queue, and its storage
  receives a task with the key \<^verbatim>\<open>valueOf\<close>. The bridge reads \<^verbatim>\<open>this._tasks["valueOf"]\<close>,
  finds the function every object inherits, and calls it; called without a receiver it
  throws a \<^verbatim>\<open>TypeError\<close>. The attempt fails: the error observers are called, the record
  is \<open>Failed\<close> and still in the backing list, and the retry is scheduled.
\<close>

theorem bridge_calls_inherited_function:
  "tasks (new_Queue :: (nat, nat) Queue) ''valueOf'' = None \<and>
   executeBridge (new_Queue :: (nat, nat) Queue) Map.empty ''valueOf'' =
     ((Map.empty, ''valueOf''),
      Throws (TypeError ''Cannot convert undefined or null to object'')) \<and>
   trace (run [NewObject Map.empty, EnqueueTask \<lparr>data = 0, key = ''valueOf''\<rparr>,
               RunImmediate (new_Queue :: (nat, nat) Queue)] (init new_MemoryQueueStorage)) =
     [ExecuteEvent 0 0 1 Map.empty ''valueOf'',
      ErrorEvent 0 0 (TypeError ''Cannot convert undefined or null to object'')] \<and>
   status (taskObjects (run [NewObject Map.empty, EnqueueTask \<lparr>data = 0, key = ''valueOf''\<rparr>,
               RunImmediate (new_Queue :: (nat, nat) Queue)] (init new_MemoryQueueStorage)) ! 0) =
     Failed \<and>
   tasksInQueue (run [NewObject Map.empty, EnqueueTask \<lparr>data = 0, key = ''valueOf''\<rparr>,
               RunImmediate (new_Queue :: (nat, nat) Queue)] (init new_MemoryQueueStorage)) = [0] \<and>
   map cl_taskInQueue (immediates (run [NewObject Map.empty,
               EnqueueTask \<lparr>data = 0, key = ''valueOf''\<rparr>,
               RunImmediate (new_Queue :: (nat, nat) Queue)] (init new_MemoryQueueStorage))) = [0]"
  by (simp add: eval_defs init_def executeBridge_def errorBridge_def new_Queue_def getTask_def
      objectPrototypeFunctions_def callObjectPrototypeFunction_def)

end
